theory Spec2Isabelle
  imports Complex_Main
begin

unbundle bit_operations_syntax

section \<open>The replay module of deep\_control (src/deep\_control/replay.py)\<close>

text \<open>
  A shallow embedding of \<^verbatim>\<open>replay.py\<close>: the helper \<^verbatim>\<open>unique\<close>, the classes
  \<^verbatim>\<open>SegmentTree\<close>, \<^verbatim>\<open>SumSegmentTree\<close>, \<^verbatim>\<open>MinSegmentTree\<close>, \<^verbatim>\<open>ReplayBufferStorage\<close>,
  \<^verbatim>\<open>ReplayBuffer\<close> and \<^verbatim>\<open>PrioritizedReplayBuffer\<close>.

  Modelling decisions, valid for the whole development:
  \<^item> Python and numpy floats are modelled as real numbers: rounding is not modelled. The
    only non-finite float the source stores is the neutral element \<^verbatim>\<open>float("inf")\<close> of the
    min tree; the type \<open>xreal\<close> adds it to the reals. Where a float computation of the
    source would leave the reals (a division by zero, a quotient of infinity, a power
    that is not a real number), the model stops with the result \<open>Inl FloatNonFinite\<close>.
  \<^item> A raised exception is the result \<open>Inl e\<close> and ends the run; a normal return is
    \<open>Inr\<close>. The error constructors carry the names of the Python exceptions.
  \<^item> A numpy index array is a list of naturals: negative indices are outside the
    model (every caller in the module passes slot numbers, and \<^verbatim>\<open>update_priorities\<close>
    asserts that its indices are not negative before it uses them).
  \<^item> The random draws of \<^verbatim>\<open>np.random.random\<close> and \<^verbatim>\<open>torch.randint\<close> are arguments of
    the sampling functions: the batch size is the length of the list of draws.
  \<^item> States, next states and actions are vectors. A call of \<^verbatim>\<open>push\<close> is a list of
    transitions: the list of one transition is a call with the arrays of that transition
    (1-d states and actions, \<^verbatim>\<open>num_samples = 1\<close>); any other list is a call with 2-d arrays,
    one row per transition, and column arrays of rewards and done flags. The shapes of the
    tensors of the storage, and the broadcasting of the values written to them, are
    modelled for these arrays (see \<open>ReplayBufferStorage\<close>).
\<close>

datatype error =
    AssertionError | IndexError | TypeError | ValueError | RecursionError
  | ZeroDivisionError | RuntimeError | FloatNonFinite

subsection \<open>unique\<close>

text \<open>
  \<^verbatim>\<open>unique(sorted_array)\<close>: an array of length one is returned as it is; otherwise the
  boolean mask \<^verbatim>\<open>np.append(right != left, True)\<close> selects the entries. On an empty array
  the mask has length one and numpy refuses it with an IndexError.
\<close>

definition unique :: "nat list \<Rightarrow> error + nat list" where
  "unique sorted_array =
     (if length sorted_array = 1 then Inr sorted_array
      else
        let left = butlast sorted_array;
            right = tl sorted_array;
            uniques = map2 (\<lambda>r l. r \<noteq> l) right left @ [True]
        in if length uniques \<noteq> length sorted_array then Inl IndexError
           else Inr (map fst (filter snd (zip sorted_array uniques))))"

subsection \<open>SegmentTree\<close>

record 'a segment_tree =
  capacity :: nat
  tvalue :: "'a list"
  operation :: "'a \<Rightarrow> 'a \<Rightarrow> 'a"
  neutral_element :: 'a

definition SegmentTree_init ::
  "nat \<Rightarrow> ('a \<Rightarrow> 'a \<Rightarrow> 'a) \<Rightarrow> 'a \<Rightarrow> error + 'a segment_tree" where
  "SegmentTree_init cap opr neutral =
     (if cap > 0 \<and> cap AND (cap - 1) = 0
      then Inr \<lparr>capacity = cap, tvalue = replicate (2 * cap) neutral,
                operation = opr, neutral_element = neutral\<rparr>
      else Inl AssertionError)"

text \<open>
  CPython bounds the depth of recursion (\<^verbatim>\<open>sys.getrecursionlimit()\<close>, 1000 by default)
  and raises RecursionError beyond it. \<^verbatim>\<open>_reduce_helper\<close> carries the remaining depth.
\<close>

definition recursion_limit :: nat where
  "recursion_limit = 1000"

fun reduce_helper ::
  "nat \<Rightarrow> 'a segment_tree \<Rightarrow> int \<Rightarrow> int \<Rightarrow> nat \<Rightarrow> int \<Rightarrow> int \<Rightarrow> error + 'a" where
  "reduce_helper 0 t start end node node_start node_end = Inl RecursionError"
| "reduce_helper (Suc d) t start end node node_start node_end =
     (if start = node_start \<and> end = node_end then
        (if node < length (tvalue t) then Inr (tvalue t ! node) else Inl IndexError)
      else
        let mid = (node_start + node_end) div 2 in
        if end \<le> mid then reduce_helper d t start end (2 * node) node_start mid
        else if mid + 1 \<le> start then
          reduce_helper d t start end (2 * node + 1) (mid + 1) node_end
        else
          (case reduce_helper d t start mid (2 * node) node_start mid of
             Inl e \<Rightarrow> Inl e
           | Inr a \<Rightarrow>
               (case reduce_helper d t (mid + 1) end (2 * node + 1) (mid + 1) node_end of
                  Inl e \<Rightarrow> Inl e
                | Inr b \<Rightarrow> Inr (operation t a b))))"

definition reduce :: "'a segment_tree \<Rightarrow> int \<Rightarrow> int option \<Rightarrow> error + 'a" where
  "reduce t start end =
     (let end1 = (case end of None \<Rightarrow> int (capacity t) | Some e \<Rightarrow> e);
          end2 = (if end1 < 0 then end1 + int (capacity t) else end1);
          end3 = end2 - 1
      in reduce_helper recursion_limit t start end3 1 0 (int (capacity t) - 1))"

text \<open>
  \<^verbatim>\<open>self._value[idxs] = val\<close> for an index array and a value array of the same length:
  the entries are written in order, so the last write to a repeated index stays.
\<close>

definition assign :: "'a list \<Rightarrow> nat list \<Rightarrow> 'a list \<Rightarrow> 'a list" where
  "assign xs idxs vals = fold (\<lambda>(i, v) ys. ys[i := v]) (zip idxs vals) xs"

text \<open>
  The loop of \<^verbatim>\<open>__setitem__\<close>: \<^verbatim>\<open>while len(idxs) > 1 or idxs[0] > 0\<close>. The right-hand
  side of the vectorised assignment is computed from the array as it is before any of
  its entries is written.
\<close>

function setitem_loop :: "'a segment_tree \<Rightarrow> nat list \<Rightarrow> error + 'a segment_tree" where
  "setitem_loop t idxs =
     (if idxs = [] then Inl IndexError
      else if length idxs > 1 \<or> hd idxs > 0 then
        (if list_all (\<lambda>i. 2 * i + 1 < length (tvalue t)) idxs then
           let new = map (\<lambda>i. operation t (tvalue t ! (2 * i)) (tvalue t ! (2 * i + 1))) idxs;
               t' = t\<lparr>tvalue := assign (tvalue t) idxs new\<rparr>
           in (case unique (map (\<lambda>i. i div 2) idxs) of
                 Inl e \<Rightarrow> Inl e
               | Inr idxs' \<Rightarrow> setitem_loop t' idxs')
         else Inl IndexError)
      else Inr t)"
  by pat_completeness auto

text \<open>
  Termination of the loop. \<open>compress\<close> is a proof device: the recursive reading of the
  mask of \<^verbatim>\<open>unique\<close> (an entry stays iff it is the last one or differs from its right
  neighbour).
\<close>

fun compress :: "nat list \<Rightarrow> nat list" where
  "compress [] = []"
| "compress [x] = [x]"
| "compress (x # y # zs) = (if y \<noteq> x then x # compress (y # zs) else compress (y # zs))"

lemma mask_filter_compress:
  "xs \<noteq> [] \<Longrightarrow>
   map fst (filter snd (zip xs (map2 (\<lambda>r l. r \<noteq> l) (tl xs) (butlast xs) @ [True]))) = compress xs"
  by (induction xs rule: compress.induct) auto

lemma unique_compress: "xs \<noteq> [] \<Longrightarrow> unique xs = Inr (compress xs)"
proof -
  assume ne: "xs \<noteq> []"
  show ?thesis
  proof (cases "length xs = 1")
    case True
    then obtain x where "xs = [x]" by (cases xs) auto
    then show ?thesis by (simp add: unique_def)
  next
    case False
    with ne have "length (map2 (\<lambda>r l. r \<noteq> l) (tl xs) (butlast xs) @ [True]) = length xs"
      by (cases xs) auto
    with False ne show ?thesis
      by (simp add: unique_def Let_def mask_filter_compress del: map_append)
  qed
qed

lemma unique_Nil: "unique [] = Inl IndexError"
  by (simp add: unique_def)

lemma set_compress: "set (compress xs) = set xs"
  by (induction xs rule: compress.induct) auto

lemma length_compress: "length (compress xs) \<le> length xs"
  by (induction xs rule: compress.induct) auto

lemma sum_list_compress: "sum_list (compress xs) \<le> sum_list xs"
  by (induction xs rule: compress.induct) auto

lemma compress_const: "xs \<noteq> [] \<Longrightarrow> \<forall>x\<in>set xs. x = a \<Longrightarrow> compress xs = [a]"
  by (induction xs rule: compress.induct) auto

lemma sum_list_half: "sum_list (map (\<lambda>i. i div 2) xs) \<le> sum_list (xs::nat list)"
  by (induction xs) auto

lemma sum_list_half_less:
  "\<exists>x\<in>set xs. 0 < x \<Longrightarrow> sum_list (map (\<lambda>i. i div 2) xs) < sum_list (xs::nat list)"
proof (induction xs)
  case Nil then show ?case by simp
next
  case (Cons a xs)
  show ?case
  proof (cases "0 < a")
    case True
    then have "a div 2 < a" by simp
    with sum_list_half[of xs] show ?thesis by simp
  next
    case False
    with Cons show ?thesis by auto
  qed
qed

termination setitem_loop
proof (relation "measure (\<lambda>(t, idxs). sum_list idxs + length idxs)", goal_cases)
  case 1 show ?case by simp
next
  case (2 t idxs new t' idxs')
  let ?h = "map (\<lambda>i. i div 2) idxs"
  from 2 have ne: "idxs \<noteq> []" by simp
  then have hne: "?h \<noteq> []" by simp
  from 2 unique_compress[OF hne] have eq: "idxs' = compress ?h" by simp
  show ?case
  proof (cases "\<exists>x\<in>set idxs. 0 < x")
    case True
    from sum_list_half_less[OF True] sum_list_compress[of ?h] length_compress[of ?h]
    show ?thesis by (simp add: eq)
  next
    case False
    then have all0: "\<forall>x\<in>set idxs. x = 0" by auto
    with ne have "hd idxs = 0" by (cases idxs) auto
    with 2 have len: "length idxs > 1" by simp
    from all0 have "\<forall>x\<in>set ?h. x = 0" by auto
    from compress_const[OF hne this] have "compress ?h = [0]" .
    with len show ?thesis by (simp add: eq)
  qed
qed

declare setitem_loop.simps [simp del]

text \<open>
  \<^verbatim>\<open>__setitem__(idx, val)\<close> with an index array: the leaves are written, then the loop
  recomputes the ancestors level by level. numpy raises IndexError when a position is
  outside the array and ValueError when the value array does not fit the index array.
  With an int index the source wraps it into an array of length one
  (\<open>setitem_int\<close>); a scalar value is broadcast over the index array
  (\<open>setitem_scalar\<close>).
\<close>

definition setitem :: "'a segment_tree \<Rightarrow> nat list \<Rightarrow> 'a list \<Rightarrow> error + 'a segment_tree" where
  "setitem t idx val =
     (let idxs = map (\<lambda>i. i + capacity t) idx in
      if \<not> list_all (\<lambda>i. i < length (tvalue t)) idxs then Inl IndexError
      else if length val \<noteq> length idx then Inl ValueError
      else
        let t1 = t\<lparr>tvalue := assign (tvalue t) idxs val\<rparr> in
        case unique (map (\<lambda>i. i div 2) idxs) of
          Inl e \<Rightarrow> Inl e
        | Inr idxs' \<Rightarrow> setitem_loop t1 idxs')"

definition setitem_int :: "'a segment_tree \<Rightarrow> nat \<Rightarrow> 'a \<Rightarrow> error + 'a segment_tree" where
  "setitem_int t idx val = setitem t [idx] [val]"

definition setitem_scalar :: "'a segment_tree \<Rightarrow> nat list \<Rightarrow> 'a \<Rightarrow> error + 'a segment_tree" where
  "setitem_scalar t idx val = setitem t idx (replicate (length idx) val)"

text \<open>
  \<^verbatim>\<open>__getitem__(idx)\<close>: \<^verbatim>\<open>np.max\<close> of an empty array raises ValueError; the two
  assertions bound the indices (the lower bound holds for every natural number).
\<close>

definition getitem :: "'a segment_tree \<Rightarrow> nat list \<Rightarrow> error + 'a list" where
  "getitem t idx =
     (if idx = [] then Inl ValueError
      else if \<not> list_all (\<lambda>i. i < capacity t) idx then Inl AssertionError
      else if \<not> list_all (\<lambda>i. capacity t + i < length (tvalue t)) idx then Inl IndexError
      else Inr (map (\<lambda>i. tvalue t ! (capacity t + i)) idx))"

subsection \<open>SumSegmentTree and MinSegmentTree\<close>

datatype xreal = Fin real | PInf

text \<open>\<^verbatim>\<open>np.minimum\<close> on floats that may be \<^verbatim>\<open>inf\<close>.\<close>

fun minimum :: "xreal \<Rightarrow> xreal \<Rightarrow> xreal" where
  "minimum (Fin a) (Fin b) = Fin (min a b)"
| "minimum PInf y = y"
| "minimum x PInf = x"

definition SumSegmentTree_init :: "nat \<Rightarrow> error + real segment_tree" where
  "SumSegmentTree_init cap = SegmentTree_init cap (\<lambda>a b. a + b) 0"

definition MinSegmentTree_init :: "nat \<Rightarrow> error + xreal segment_tree" where
  "MinSegmentTree_init cap = SegmentTree_init cap minimum PInf"

definition tree_sum :: "real segment_tree \<Rightarrow> int \<Rightarrow> int option \<Rightarrow> error + real" where
  "tree_sum t start end = reduce t start end"

definition tree_min :: "xreal segment_tree \<Rightarrow> int \<Rightarrow> int option \<Rightarrow> error + xreal" where
  "tree_min t start end = reduce t start end"

text \<open>
  The loop of \<^verbatim>\<open>find_prefixsum_idx\<close>, \<^verbatim>\<open>while np.any(cont)\<close>, on the three arrays
  \<^verbatim>\<open>idx\<close>, \<^verbatim>\<open>prefixsum\<close> and \<^verbatim>\<open>cont\<close>. From an arbitrary state the loop need not end
  (an index 0 stays 0), so it is a partial function and not returning is \<open>None\<close>.
\<close>

partial_function (option) prefixsum_loop ::
  "real segment_tree \<Rightarrow> nat list \<Rightarrow> real list \<Rightarrow> bool list \<Rightarrow> (error + nat list) option" where
  "prefixsum_loop t idx prefixsum cont =
     (if list_ex (\<lambda>c. c) cont then
        let idx1 = map2 (\<lambda>i c. if c then 2 * i else i) idx cont in
        if \<not> list_all (\<lambda>i. i < length (tvalue t)) idx1 then Some (Inl IndexError)
        else
          let v = map (\<lambda>i. tvalue t ! i) idx1;
              prefixsum_new = map2 (\<lambda>x p. if x \<le> p then p - x else p) v prefixsum;
              idx2 = map (\<lambda>(i, x, p, c). if x > p \<or> \<not> c then i else i + 1)
                       (zip idx1 (zip v (zip prefixsum cont)));
              cont2 = map (\<lambda>i. i < capacity t) idx2
          in prefixsum_loop t idx2 prefixsum_new cont2
      else Some (Inr idx))"

text \<open>
  \<^verbatim>\<open>find_prefixsum_idx(prefixsum)\<close> for an array of floats. \<^verbatim>\<open>np.min\<close> of an empty array
  raises ValueError. The loop ends with every index at a leaf position, at or above the
  capacity, so the subtraction of the capacity is exact on the naturals.
\<close>

definition find_prefixsum_idx ::
  "real segment_tree \<Rightarrow> real list \<Rightarrow> (error + nat list) option" where
  "find_prefixsum_idx t prefixsum =
     (if prefixsum = [] then Some (Inl ValueError)
      else if \<not> list_all (\<lambda>p. 0 \<le> p) prefixsum then Some (Inl AssertionError)
      else
        case tree_sum t 0 None of
          Inl e \<Rightarrow> Some (Inl e)
        | Inr s \<Rightarrow>
            if \<not> list_all (\<lambda>p. p \<le> s + 1 / 100000) prefixsum then Some (Inl AssertionError)
            else
              (case prefixsum_loop t (replicate (length prefixsum) 1) prefixsum
                      (replicate (length prefixsum) True) of
                 None \<Rightarrow> None
               | Some (Inl e) \<Rightarrow> Some (Inl e)
               | Some (Inr idx) \<Rightarrow> Some (Inr (map (\<lambda>i. i - capacity t) idx))))"

subsection \<open>ReplayBufferStorage\<close>

record transition =
  state :: "real list"
  action :: "real list"
  reward :: real
  next_state :: "real list"
  done_flag :: bool

text \<open>
  The tensors of the storage. \<^verbatim>\<open>ReplayBuffer.push\<close> makes the storage at the first push
  with \<^verbatim>\<open>obs_shape = state.shape\<close> and \<^verbatim>\<open>action_shape = action.shape\<close>, so a slot of
  \<^verbatim>\<open>s_stack\<close> holds a vector (shape \<open>(k,)\<close>, \<open>Shape1 k\<close>) when the first push was of one
  transition, and a matrix (shape \<open>(n, k)\<close>, \<open>Shape2 n k\<close>) when it was a batch of \<open>n\<close> rows.
  \<open>array_shape\<close> is the \<^verbatim>\<open>.shape\<close> of the array of a call, \<open>zeros\<close> the slot that
  \<^verbatim>\<open>torch.zeros\<close> makes. \<open>is_array\<close> says that the rows have one length: rows of different
  lengths do not make a numeric array, and the conversion to a tensor raises TypeError.
\<close>

datatype tensor = Vec "real list" | Mat "real list list"

datatype shape = Shape1 nat | Shape2 nat nat

definition zeros :: "shape \<Rightarrow> tensor" where
  "zeros sh =
     (case sh of
        Shape1 k \<Rightarrow> Vec (replicate k 0)
      | Shape2 n k \<Rightarrow> Mat (replicate n (replicate k 0)))"

definition array_shape :: "real list list \<Rightarrow> shape" where
  "array_shape rows =
     (case rows of
        [] \<Rightarrow> Shape2 0 0
      | v # vs \<Rightarrow> if vs = [] then Shape1 (length v) else Shape2 (length rows) (length v))"

definition is_array :: "real list list \<Rightarrow> bool" where
  "is_array rows =
     (case rows of [] \<Rightarrow> True | v # vs \<Rightarrow> list_all (\<lambda>w. length w = length v) vs)"

text \<open>
  \<^verbatim>\<open>stack[R] = value\<close> on a stack whose slots have shape \<open>sh\<close>: torch broadcasts the value
  to the shape \<open>(len(R),) + sh\<close> and raises RuntimeError when it cannot. A row broadcasts
  when it has the width of the slot or the width 1 (\<open>expand\<close> repeats its entry). The
  result of \<open>slot_values\<close> is the list of the tensors written to the slots of \<^verbatim>\<open>R\<close>, in
  order. Into vector slots, every row of the call goes to its own slot. Into matrix slots
  of \<open>n\<close> rows, the vector of a single transition is repeated \<open>n\<close> times, and a batch
  must have \<open>n\<close> rows, all of which go to every slot of \<^verbatim>\<open>R\<close>. The empty batch writes
  nothing.
\<close>

definition expand :: "nat \<Rightarrow> real list \<Rightarrow> real list" where
  "expand k v = (if length v = k then v else replicate k (case v of [] \<Rightarrow> 0 | x # _ \<Rightarrow> x))"

definition slot_values :: "shape \<Rightarrow> real list list \<Rightarrow> error + tensor list" where
  "slot_values sh rows =
     (case sh of
        Shape1 k \<Rightarrow>
          if \<not> list_all (\<lambda>v. length v = k \<or> length v = 1) rows then Inl RuntimeError
          else Inr (map (\<lambda>v. Vec (expand k v)) rows)
      | Shape2 n k \<Rightarrow>
          if \<not> list_all (\<lambda>v. length v = k \<or> length v = 1) rows then Inl RuntimeError
          else if length rows = 1 then Inr (map (\<lambda>v. Mat (replicate n (expand k v))) rows)
          else if rows = [] \<or> length rows = n
            then Inr (map (\<lambda>v. Mat (map (expand k) rows)) rows)
            else Inl RuntimeError)"

record replay_buffer_storage =
  s_stack :: "tensor list"
  action_stack :: "tensor list"
  reward_stack :: "real list"
  s1_stack :: "tensor list"
  done_stack :: "int list"
  obs_shape :: shape
  action_shape :: shape
  st_size :: nat
  next_idx :: nat
  max_filled :: nat

definition ReplayBufferStorage_init :: "nat \<Rightarrow> shape \<Rightarrow> shape \<Rightarrow> replay_buffer_storage" where
  "ReplayBufferStorage_init sz obs_sh action_sh =
     \<lparr>s_stack = replicate sz (zeros obs_sh),
      action_stack = replicate sz (zeros action_sh),
      reward_stack = replicate sz 0,
      s1_stack = replicate sz (zeros obs_sh),
      done_stack = replicate sz 0,
      obs_shape = obs_sh, action_shape = action_sh,
      st_size = sz, next_idx = 0, max_filled = 0\<rparr>"

definition storage_len :: "replay_buffer_storage \<Rightarrow> nat" where
  "storage_len st = max_filled st"

text \<open>
  \<^verbatim>\<open>add\<close>: the conversions to tensors, \<^verbatim>\<open>R = np.arange(next_idx, next_idx + num_samples) % size\<close>,
  the five writes at \<^verbatim>\<open>R\<close>, then the two counters. Each of the writes of the states, the
  actions and the next states raises RuntimeError when the value does not broadcast to
  the slots. With \<^verbatim>\<open>size = 0\<close> numpy's remainder is 0 and the first write is out of range
  (IndexError, after the check of its shape); with no sample to write, the remainder of
  Python integers in the last line raises ZeroDivisionError.
\<close>

definition storage_add ::
  "replay_buffer_storage \<Rightarrow> transition list \<Rightarrow> error + (nat list \<times> replay_buffer_storage)" where
  "storage_add st batch =
     (let num_samples = length batch in
      if \<not> (is_array (map state batch) \<and> is_array (map action batch)
             \<and> is_array (map next_state batch))
      then Inl TypeError
      else
        case slot_values (obs_shape st) (map state batch) of
          Inl e \<Rightarrow> Inl e
        | Inr s \<Rightarrow>
      if st_size st = 0 then Inl (if num_samples = 0 then ZeroDivisionError else IndexError)
      else
        let R = map (\<lambda>k. k mod st_size st) [next_idx st ..< next_idx st + num_samples] in
        case slot_values (action_shape st) (map action batch) of
          Inl e \<Rightarrow> Inl e
        | Inr a \<Rightarrow>
        (case slot_values (obs_shape st) (map next_state batch) of
          Inl e \<Rightarrow> Inl e
        | Inr s_1 \<Rightarrow>
        Inr (R,
          st\<lparr>s_stack := assign (s_stack st) R s,
             action_stack := assign (action_stack st) R a,
             reward_stack := assign (reward_stack st) R (map reward batch),
             s1_stack := assign (s1_stack st) R s_1,
             done_stack := assign (done_stack st) R (map (\<lambda>x. if done_flag x then 1 else 0) batch),
             max_filled := min (max (next_idx st + num_samples) (max_filled st)) (st_size st),
             next_idx := (next_idx st + num_samples) mod st_size st\<rparr>)))"

type_synonym records = "tensor list \<times> tensor list \<times> real list \<times> tensor list \<times> int list"

definition storage_getitem :: "replay_buffer_storage \<Rightarrow> nat list \<Rightarrow> error + records" where
  "storage_getitem st indices =
     (if \<not> list_all (\<lambda>i. i < st_size st) indices then Inl IndexError
      else Inr (map (\<lambda>i. s_stack st ! i) indices,
                map (\<lambda>i. action_stack st ! i) indices,
                map (\<lambda>i. reward_stack st ! i) indices,
                map (\<lambda>i. s1_stack st ! i) indices,
                map (\<lambda>i. done_stack st ! i) indices))"

definition storage_get_all_transitions :: "replay_buffer_storage \<Rightarrow> records" where
  "storage_get_all_transitions st =
     (take (max_filled st) (s_stack st),
      take (max_filled st) (action_stack st),
      take (max_filled st) (reward_stack st),
      take (max_filled st) (s1_stack st),
      take (max_filled st) (done_stack st))"

subsection \<open>ReplayBuffer\<close>

record replay_buffer =
  storage :: "replay_buffer_storage option"
  maxsize :: nat

definition ReplayBuffer_init :: "nat \<Rightarrow> replay_buffer" where
  "ReplayBuffer_init sz = \<lparr>storage = None, maxsize = sz\<rparr>"

text \<open>\<^verbatim>\<open>__len__\<close>: \<^verbatim>\<open>len(self._storage)\<close>; \<^verbatim>\<open>len(None)\<close> raises TypeError.\<close>

definition buffer_len :: "'a replay_buffer_scheme \<Rightarrow> error + nat" where
  "buffer_len b = (case storage b of None \<Rightarrow> Inl TypeError | Some st \<Rightarrow> Inr (storage_len st))"

text \<open>
  \<^verbatim>\<open>push\<close>: \<^verbatim>\<open>not self._storage\<close> holds for \<^verbatim>\<open>None\<close> and for a storage of length 0
  (the class defines \<^verbatim>\<open>__len__\<close>); in both cases a new storage is made. The function
  is defined on the record scheme, so the subclass calls it as \<^verbatim>\<open>super().push\<close>.
\<close>

definition push ::
  "'a replay_buffer_scheme \<Rightarrow> transition list \<Rightarrow> error + (nat list \<times> 'a replay_buffer_scheme)" where
  "push b batch =
     (let fresh = ReplayBufferStorage_init (maxsize b)
                    (array_shape (map state batch)) (array_shape (map action batch));
          st = (case storage b of
                  None \<Rightarrow> fresh
                | Some st0 \<Rightarrow> if storage_len st0 = 0 then fresh else st0)
      in case storage_add st batch of
           Inl e \<Rightarrow> Inl e
         | Inr (R, st') \<Rightarrow> Inr (R, b\<lparr>storage := Some st'\<rparr>))"

text \<open>
  \<^verbatim>\<open>sample(batch_size)\<close>: \<^verbatim>\<open>random_idxs\<close> are the draws of
  \<^verbatim>\<open>torch.randint(len(self._storage), (batch_size,))\<close>, which raises RuntimeError for
  an empty range.
\<close>

definition sample :: "'a replay_buffer_scheme \<Rightarrow> nat list \<Rightarrow> error + records" where
  "sample b random_idxs =
     (case storage b of
        None \<Rightarrow> Inl TypeError
      | Some st \<Rightarrow>
          if storage_len st = 0 then Inl RuntimeError
          else storage_getitem st random_idxs)"

definition get_all_transitions :: "'a replay_buffer_scheme \<Rightarrow> error + records" where
  "get_all_transitions b =
     (case storage b of None \<Rightarrow> Inl TypeError | Some st \<Rightarrow> Inr (storage_get_all_transitions st))"

subsection \<open>PrioritizedReplayBuffer\<close>

record prioritized_replay_buffer = replay_buffer +
  alpha :: real
  beta :: real
  it_sum :: "real segment_tree"
  it_min :: "xreal segment_tree"
  max_priority :: real

text \<open>
  The power \<^verbatim>\<open>x ** y\<close> on floats. For a positive base it is \<open>x powr y\<close>. A zero base
  gives 1 for the exponent 0 and 0 for a positive exponent; a negative base has a real
  power only for an integral exponent. Every other case leaves the reals (Python
  raises or answers a complex number, numpy answers inf or nan).
\<close>

definition fpow :: "real \<Rightarrow> real \<Rightarrow> error + real" where
  "fpow x y =
     (if 0 < x then Inr (x powr y)
      else if x = 0 then (if y = 0 then Inr 1 else if 0 < y then Inr 0 else Inl FloatNonFinite)
      else if y = of_int \<lfloor>y\<rfloor>
        then Inr ((if even \<lfloor>y\<rfloor> then 1 else - 1) * ((- x) powr y))
        else Inl FloatNonFinite)"

text \<open>The loop \<^verbatim>\<open>while it_capacity < size: it_capacity *= 2\<close> of the constructor.\<close>

partial_function (option) it_capacity_loop :: "nat \<Rightarrow> nat \<Rightarrow> nat option" where
  "it_capacity_loop it_capacity sz =
     (if it_capacity < sz then it_capacity_loop (it_capacity * 2) sz else Some it_capacity)"

definition PrioritizedReplayBuffer_init ::
  "nat \<Rightarrow> real \<Rightarrow> real \<Rightarrow> (error + prioritized_replay_buffer) option" where
  "PrioritizedReplayBuffer_init sz a b =
     (if \<not> a \<ge> 0 then Some (Inl AssertionError)
      else
        case it_capacity_loop 1 sz of
          None \<Rightarrow> None
        | Some it_capacity \<Rightarrow>
            Some (case SumSegmentTree_init it_capacity of
                    Inl e \<Rightarrow> Inl e
                  | Inr s \<Rightarrow>
                      (case MinSegmentTree_init it_capacity of
                         Inl e \<Rightarrow> Inl e
                       | Inr m \<Rightarrow>
                           Inr \<lparr>storage = None, maxsize = sz, alpha = a, beta = b,
                                it_sum = s, it_min = m, max_priority = 1\<rparr>)))"

text \<open>
  \<^verbatim>\<open>push\<close> of the prioritized buffer. An explicit priority is a float; \<^verbatim>\<open>not priorities\<close>
  holds for \<^verbatim>\<open>None\<close> and for \<^verbatim>\<open>0.0\<close>. The scalar \<^verbatim>\<open>priorities ** self.alpha\<close> is broadcast
  over \<^verbatim>\<open>R\<close>. The method has no return statement, so its result is \<^verbatim>\<open>None\<close>.
\<close>

definition prioritized_push ::
  "prioritized_replay_buffer \<Rightarrow> transition list \<Rightarrow> real option \<Rightarrow>
   error + (nat list option \<times> prioritized_replay_buffer)" where
  "prioritized_push b batch priorities =
     (case push b batch of
        Inl e \<Rightarrow> Inl e
      | Inr (R, b1) \<Rightarrow>
          let priorities1 =
                (case priorities of
                   None \<Rightarrow> max_priority b1
                 | Some p \<Rightarrow> if p = 0 then max_priority b1 else p)
          in case fpow priorities1 (alpha b1) of
               Inl e \<Rightarrow> Inl e
             | Inr v \<Rightarrow>
                 (case setitem_scalar (it_sum b1) R v of
                    Inl e \<Rightarrow> Inl e
                  | Inr s \<Rightarrow>
                      (case setitem_scalar (it_min b1) R (Fin v) of
                         Inl e \<Rightarrow> Inl e
                       | Inr m \<Rightarrow> Inr (None, b1\<lparr>it_sum := s, it_min := m\<rparr>))))"

text \<open>
  \<^verbatim>\<open>_sample_proportional(batch_size)\<close>: \<open>us\<close> are the draws of
  \<^verbatim>\<open>np.random.random(size=batch_size)\<close>, each in the interval from 0 (included) to 1
  (excluded).
\<close>

definition sample_proportional ::
  "prioritized_replay_buffer \<Rightarrow> real list \<Rightarrow> (error + nat list) option" where
  "sample_proportional b us =
     (case storage b of
        None \<Rightarrow> Some (Inl TypeError)
      | Some st \<Rightarrow>
          (case tree_sum (it_sum b) 0 (Some (int (storage_len st) - 1)) of
             Inl e \<Rightarrow> Some (Inl e)
           | Inr total0 \<Rightarrow> find_prefixsum_idx (it_sum b) (map (\<lambda>u. u * total0) us)))"

text \<open>
  The importance weights of \<^verbatim>\<open>sample\<close>, from the sampled indices on: \<^verbatim>\<open>p_min\<close>,
  \<^verbatim>\<open>max_weight\<close>, \<^verbatim>\<open>p_sample\<close> and \<^verbatim>\<open>weights\<close>, then the read of the storage.
\<close>

fun sequence :: "(error + 'a) list \<Rightarrow> error + 'a list" where
  "sequence [] = Inr []"
| "sequence (Inl e # xs) = Inl e"
| "sequence (Inr x # xs) = (case sequence xs of Inl e \<Rightarrow> Inl e | Inr ys \<Rightarrow> Inr (x # ys))"

definition sample_weights ::
  "prioritized_replay_buffer \<Rightarrow> replay_buffer_storage \<Rightarrow> nat list \<Rightarrow>
   error + (records \<times> real list \<times> nat list)" where
  "sample_weights b st idxes =
     (case tree_min (it_min b) 0 None of
        Inl e \<Rightarrow> Inl e
      | Inr PInf \<Rightarrow> Inl FloatNonFinite
      | Inr (Fin mn) \<Rightarrow>
     (case tree_sum (it_sum b) 0 None of
        Inl e \<Rightarrow> Inl e
      | Inr sm \<Rightarrow>
          if sm = 0 then Inl FloatNonFinite
          else
            let p_min = mn / sm in
            (case fpow (p_min * real (storage_len st)) (- beta b) of
               Inl e \<Rightarrow> Inl e
             | Inr max_weight \<Rightarrow>
            (case getitem (it_sum b) idxes of
               Inl e \<Rightarrow> Inl e
             | Inr leaves \<Rightarrow>
                 let p_sample = map (\<lambda>x. x / sm) leaves in
                 (case sequence (map (\<lambda>p. fpow (p * real (storage_len st)) (- beta b)) p_sample) of
                    Inl e \<Rightarrow> Inl e
                  | Inr powers \<Rightarrow>
                      if max_weight = 0 then Inl FloatNonFinite
                      else
                        let weights = map (\<lambda>x. x / max_weight) powers in
                        (case storage_getitem st idxes of
                           Inl e \<Rightarrow> Inl e
                         | Inr recs \<Rightarrow> Inr (recs, weights, idxes)))))))"

definition prioritized_sample ::
  "prioritized_replay_buffer \<Rightarrow> real list \<Rightarrow>
   (error + (records \<times> real list \<times> nat list)) option" where
  "prioritized_sample b us =
     (case sample_proportional b us of
        None \<Rightarrow> None
      | Some (Inl e) \<Rightarrow> Some (Inl e)
      | Some (Inr idxes) \<Rightarrow>
          (case storage b of
             None \<Rightarrow> Some (Inl TypeError)
           | Some st \<Rightarrow> Some (sample_weights b st idxes)))"

text \<open>
  \<^verbatim>\<open>update_priorities(idxes, priorities)\<close> with its four assertions. \<^verbatim>\<open>np.min\<close> of an
  empty array raises ValueError; \<^verbatim>\<open>len(self._storage)\<close> raises TypeError before the
  first push. The priorities are positive where the power is taken.
\<close>

definition update_priorities ::
  "prioritized_replay_buffer \<Rightarrow> int list \<Rightarrow> real list \<Rightarrow> error + prioritized_replay_buffer" where
  "update_priorities b idxes priorities =
     (if length idxes \<noteq> length priorities then Inl AssertionError
      else if priorities = [] then Inl ValueError
      else if \<not> list_all (\<lambda>p. 0 < p) priorities then Inl AssertionError
      else if \<not> list_all (\<lambda>i. 0 \<le> i) idxes then Inl AssertionError
      else
        case storage b of
          None \<Rightarrow> Inl TypeError
        | Some st \<Rightarrow>
            if \<not> list_all (\<lambda>i. i < int (storage_len st)) idxes then Inl AssertionError
            else
              let vals = map (\<lambda>p. p powr alpha b) priorities in
              (case setitem (it_sum b) (map nat idxes) vals of
                 Inl e \<Rightarrow> Inl e
               | Inr s \<Rightarrow>
                   (case setitem (it_min b) (map nat idxes) (map Fin vals) of
                      Inl e \<Rightarrow> Inl e
                    | Inr m \<Rightarrow>
                        Inr (b\<lparr>it_sum := s, it_min := m,
                               max_priority := max (max_priority b) (Max (set priorities))\<rparr>))))"

subsection \<open>Sequences of calls\<close>

text \<open>
  A client of the buffers calls \<^verbatim>\<open>push\<close> and \<^verbatim>\<open>update_priorities\<close> one after the other.
  \<open>pushes\<close> runs a list of pushes and collects the returned index arrays; \<open>run\<close> runs
  a list of calls on the prioritized buffer. Both stop at the first exception.
\<close>

fun pushes ::
  "'a replay_buffer_scheme \<Rightarrow> transition list list \<Rightarrow>
   error + (nat list list \<times> 'a replay_buffer_scheme)" where
  "pushes b [] = Inr ([], b)"
| "pushes b (batch # rest) =
     (case push b batch of
        Inl e \<Rightarrow> Inl e
      | Inr (R, b1) \<Rightarrow>
          (case pushes b1 rest of
             Inl e \<Rightarrow> Inl e
           | Inr (Rs, b2) \<Rightarrow> Inr (R # Rs, b2)))"

datatype call = Push "transition list" "real option" | UpdatePriorities "int list" "real list"

fun run :: "prioritized_replay_buffer \<Rightarrow> call list \<Rightarrow> error + prioritized_replay_buffer" where
  "run b [] = Inr b"
| "run b (Push batch priorities # rest) =
     (case prioritized_push b batch priorities of
        Inl e \<Rightarrow> Inl e
      | Inr (r, b1) \<Rightarrow> run b1 rest)"
| "run b (UpdatePriorities idxes priorities # rest) =
     (case update_priorities b idxes priorities of
        Inl e \<Rightarrow> Inl e
      | Inr b1 \<Rightarrow> run b1 rest)"

subsection \<open>Counters and invariants of the storage\<close>

text \<open>
  \<open>filled_count\<close> is the counter \<^verbatim>\<open>_max_filled\<close> of the storage, and 0 as long as the
  buffer has made no storage. \<open>storage_inv\<close> is the invariant of the two counters: the
  filled count never exceeds the size, and while the storage is not full the write
  cursor is the filled count. \<open>tr r\<close> is a transition used in examples.
\<close>

definition filled_count :: "'a replay_buffer_scheme \<Rightarrow> nat" where
  "filled_count b = (case storage b of None \<Rightarrow> 0 | Some st \<Rightarrow> max_filled st)"

definition storage_inv :: "nat \<Rightarrow> replay_buffer_storage \<Rightarrow> bool" where
  "storage_inv sz st \<longleftrightarrow>
     st_size st = sz \<and> max_filled st \<le> sz \<and> (max_filled st < sz \<longrightarrow> next_idx st = max_filled st)"

definition buffer_inv :: "'a replay_buffer_scheme \<Rightarrow> bool" where
  "buffer_inv b \<longleftrightarrow> (case storage b of None \<Rightarrow> True | Some st \<Rightarrow> storage_inv (maxsize b) st)"

definition tr :: "real \<Rightarrow> transition" where
  "tr r = \<lparr>state = [r], action = [0], reward = r, next_state = [r + 1], done_flag = False\<rparr>"

subsection \<open>Notions for the statements about the trees\<close>

text \<open>
  \<open>leaf t i\<close> is the value of leaf \<open>i\<close>, stored at position \<open>capacity + i\<close>. \<open>tree_wf\<close>
  says that the array has two entries per leaf, as the constructor makes it. \<open>good t n\<close>
  says that node \<open>n\<close> holds the operation applied to its two children, and \<open>tree_inv\<close>
  that every internal node does. \<open>written idx val j\<close> is the value that the assignment
  \<^verbatim>\<open>a[idx] = val\<close> leaves at index \<open>j\<close>, if it writes there (the last write to \<open>j\<close>).
  \<open>dirty\<close>, \<open>body\<close> and \<open>level\<close> are proof devices for the loop of \<^verbatim>\<open>__setitem__\<close>: the
  ancestors of a set of nodes, one pass of the loop body, and the nodes of one depth.
\<close>

definition leaf :: "'a segment_tree \<Rightarrow> nat \<Rightarrow> 'a" where
  "leaf t i = tvalue t ! (capacity t + i)"

definition tree_wf :: "'a segment_tree \<Rightarrow> bool" where
  "tree_wf t \<longleftrightarrow> length (tvalue t) = 2 * capacity t"

definition good :: "'a segment_tree \<Rightarrow> nat \<Rightarrow> bool" where
  "good t n \<longleftrightarrow> tvalue t ! n = operation t (tvalue t ! (2 * n)) (tvalue t ! (2 * n + 1))"

definition tree_inv :: "'a segment_tree \<Rightarrow> bool" where
  "tree_inv t \<longleftrightarrow> (\<forall>n. 1 \<le> n \<and> n < capacity t \<longrightarrow> good t n)"

definition dirty :: "nat list \<Rightarrow> nat set" where
  "dirty idxs = {n. \<exists>i\<in>set idxs. \<exists>j. n = i div 2 ^ j}"

definition written :: "nat list \<Rightarrow> 'a list \<Rightarrow> nat \<Rightarrow> 'a option" where
  "written idx val = map_of (rev (zip idx val))"

definition body :: "'a segment_tree \<Rightarrow> nat list \<Rightarrow> 'a segment_tree" where
  "body t idxs =
     t\<lparr>tvalue := assign (tvalue t) idxs
         (map (\<lambda>i. operation t (tvalue t ! (2 * i)) (tvalue t ! (2 * i + 1))) idxs)\<rparr>"

definition level :: "nat \<Rightarrow> nat list \<Rightarrow> bool" where
  "level k idxs \<longleftrightarrow> (\<forall>i\<in>set idxs. 2 ^ k \<le> i \<and> i < 2 ^ Suc k)"

text \<open>
  \<open>covers t d n ns\<close>: node \<open>n\<close> is the root of the subtree over the \<open>2 ^ d\<close> leaves from
  \<open>ns\<close> on. \<open>prb_inv\<close> collects what every prioritized buffer satisfies after its
  constructor and any calls: both trees have the same capacity, a power of two not
  below the size; each has the array, the operation and the node invariant of its
  class; the counters of the storage are consistent; \<open>alpha\<close> is not negative and
  \<open>max_priority\<close> is at least 1.
\<close>

definition covers :: "'a segment_tree \<Rightarrow> nat \<Rightarrow> nat \<Rightarrow> nat \<Rightarrow> bool" where
  "covers t d n ns \<longleftrightarrow> n * 2 ^ d = capacity t + ns \<and> ns + 2 ^ d \<le> capacity t"

definition prb_inv :: "prioritized_replay_buffer \<Rightarrow> bool" where
  "prb_inv b \<longleftrightarrow>
     (\<exists>m. capacity (it_sum b) = 2 ^ m \<and> capacity (it_min b) = 2 ^ m \<and> maxsize b \<le> 2 ^ m)
     \<and> tree_wf (it_sum b) \<and> tree_wf (it_min b)
     \<and> operation (it_sum b) = (\<lambda>a b. a + b) \<and> operation (it_min b) = minimum
     \<and> tree_inv (it_sum b) \<and> tree_inv (it_min b)
     \<and> buffer_inv b \<and> 0 \<le> alpha b \<and> 1 \<le> max_priority b"

text \<open>
  \<open>descend t d i p\<close> is the walk of one target of \<^verbatim>\<open>find_prefixsum_idx\<close>, \<open>d\<close> levels down
  from node \<open>i\<close> with the remaining target \<open>p\<close>: a proof device, shown below to be what
  the vectorised loop computes for every entry of the batch. \<open>cumsum t i\<close> is the sum of
  the leaves before \<open>i\<close>. \<open>example_tree\<close> is the sum tree of capacity 4 with the leaves
  1, 2, 3, 4 (lemma \<open>example_tree_built\<close>: it is what the constructor and one batch
  write make).
\<close>

fun descend :: "real segment_tree \<Rightarrow> nat \<Rightarrow> nat \<Rightarrow> real \<Rightarrow> nat" where
  "descend t 0 i p = i"
| "descend t (Suc d) i p =
     (if tvalue t ! (2 * i) > p then descend t d (2 * i) p
      else descend t d (2 * i + 1) (p - tvalue t ! (2 * i)))"

definition cumsum :: "real segment_tree \<Rightarrow> nat \<Rightarrow> real" where
  "cumsum t i = (\<Sum>j<i. leaf t j)"


text \<open>
  \<open>xle\<close> is the order of the floats with \<^verbatim>\<open>inf\<close>. \<open>leaves_inv\<close> relates the leaves of the two
  trees of a prioritized buffer: a leaf of the sum tree is 0 where the min tree holds
  \<^verbatim>\<open>inf\<close> (nothing written yet), and otherwise both hold the same positive value; every
  slot below the filled count has been written.
\<close>

fun xle :: "xreal \<Rightarrow> xreal \<Rightarrow> bool" where
  "xle (Fin a) (Fin b) = (a \<le> b)"
| "xle x PInf = True"
| "xle PInf (Fin b) = False"

definition leaves_inv :: "prioritized_replay_buffer \<Rightarrow> bool" where
  "leaves_inv b \<longleftrightarrow>
     (\<forall>i<capacity (it_sum b).
        (leaf (it_sum b) i = 0 \<and> leaf (it_min b) i = PInf)
        \<or> (0 < leaf (it_sum b) i \<and> leaf (it_min b) i = Fin (leaf (it_sum b) i)))
     \<and> (\<forall>i<filled_count b. 0 < leaf (it_sum b) i)"

section \<open>Evaluation on concrete inputs\<close>

lemma reduce_helper_pos:
  "0 < d \<Longrightarrow> reduce_helper d t start end node node_start node_end =
     (if start = node_start \<and> end = node_end then
        (if node < length (tvalue t) then Inr (tvalue t ! node) else Inl IndexError)
      else
        let mid = (node_start + node_end) div 2 in
        if end \<le> mid then reduce_helper (d - 1) t start end (2 * node) node_start mid
        else if mid + 1 \<le> start then
          reduce_helper (d - 1) t start end (2 * node + 1) (mid + 1) node_end
        else
          (case reduce_helper (d - 1) t start mid (2 * node) node_start mid of
             Inl e \<Rightarrow> Inl e
           | Inr a \<Rightarrow>
               (case reduce_helper (d - 1) t (mid + 1) end (2 * node + 1) (mid + 1) node_end of
                  Inl e \<Rightarrow> Inl e
                | Inr b \<Rightarrow> Inr (operation t a b))))"
  by (cases d) (auto simp: Let_def split: sum.splits)

lemma replicate_numeral_ev: "replicate (numeral k) x = x # replicate (pred_numeral k) x"
  by (simp add: numeral_eq_Suc)

lemma list_update_numeral_ev: "(x # xs)[numeral k := v] = x # xs[pred_numeral k := v]"
  by (simp add: numeral_eq_Suc)

lemmas ev = replicate_numeral_ev list_update_numeral_ev Let_def
  unique_def assign_def setitem_def setitem_int_def setitem_scalar_def getitem_def
  SegmentTree_init_def SumSegmentTree_init_def MinSegmentTree_init_def
  tree_sum_def tree_min_def reduce_def recursion_limit_def reduce_helper_pos
  find_prefixsum_idx_def prefixsum_loop.simps setitem_loop.simps
  zeros_def array_shape_def is_array_def expand_def slot_values_def
  ReplayBufferStorage_init_def storage_len_def storage_add_def storage_getitem_def
  ReplayBuffer_init_def buffer_len_def push_def sample_def
  fpow_def it_capacity_loop.simps PrioritizedReplayBuffer_init_def prioritized_push_def
  sample_proportional_def sample_weights_def prioritized_sample_def update_priorities_def

section \<open>The constructor of the prioritized buffer\<close>

lemma it_capacity_loop_total:
  "0 < c \<Longrightarrow> \<exists>m. it_capacity_loop c sz = Some (c * 2 ^ m) \<and> sz \<le> c * 2 ^ m"
proof (induction "sz - c" arbitrary: c rule: less_induct)
  case less
  show ?case
  proof (cases "c < sz")
    case False
    then have "it_capacity_loop c sz = Some (c * 2 ^ 0)" "sz \<le> c * 2 ^ 0"
      by (simp_all add: it_capacity_loop.simps)
    then show ?thesis by blast
  next
    case True
    with less.prems have "sz - c * 2 < sz - c" "0 < c * 2" by auto
    from less.hyps[OF this] obtain m where
      m: "it_capacity_loop (c * 2) sz = Some (c * 2 * 2 ^ m)" "sz \<le> c * 2 * 2 ^ m" by blast
    from True m have "it_capacity_loop c sz = Some (c * 2 ^ Suc m)" "sz \<le> c * 2 ^ Suc m"
      by (simp_all add: it_capacity_loop.simps[of c sz] mult.assoc)
    then show ?thesis by blast
  qed
qed

lemma pow2_and_pred: "(2::nat) ^ m AND (2 ^ m - 1) = 0"
  by (metis and.commute mask_eq_exp_minus_1 and_exp_eq_0_iff_not_bit bit_mask_iff less_irrefl
      take_bit_eq_mask take_bit_eq_0_iff bit_take_bit_iff)

lemma pow2_and_pred_Suc: "(2::nat) ^ m AND (2 ^ m - Suc 0) = 0"
  using pow2_and_pred[of m] by simp

lemma init_ok:
  assumes "0 \<le> a"
  shows "\<exists>m. PrioritizedReplayBuffer_init sz a be =
           Some (Inr \<lparr>storage = None, maxsize = sz, alpha = a, beta = be,
                      it_sum = \<lparr>capacity = 2 ^ m, tvalue = replicate (2 * 2 ^ m) 0,
                                 operation = (\<lambda>a b. a + b), neutral_element = 0\<rparr>,
                      it_min = \<lparr>capacity = 2 ^ m, tvalue = replicate (2 * 2 ^ m) PInf,
                                 operation = minimum, neutral_element = PInf\<rparr>,
                      max_priority = 1\<rparr>) \<and> sz \<le> 2 ^ m"
proof -
  from it_capacity_loop_total[of 1 sz] obtain m where
    m: "it_capacity_loop 1 sz = Some (2 ^ m)" "sz \<le> 2 ^ m" by auto
  with assms show ?thesis
    by (auto simp: PrioritizedReplayBuffer_init_def SumSegmentTree_init_def
        MinSegmentTree_init_def SegmentTree_init_def pow2_and_pred_Suc)
qed

lemma storage_inv_init: "storage_inv sz (ReplayBufferStorage_init sz p q)"
  by (simp add: storage_inv_def ReplayBufferStorage_init_def)

lemma storage_add_R:
  "storage_add st batch = Inr (R, st') \<Longrightarrow>
   R = map (\<lambda>k. (next_idx st + k) mod st_size st) [0..<length batch]"
proof -
  have "[next_idx st..<next_idx st + length batch] = map (\<lambda>k. next_idx st + k) [0..<length batch]"
    using map_add_upt[of "next_idx st" "length batch"] by (simp add: add.commute)
  then show "storage_add st batch = Inr (R, st') \<Longrightarrow> ?thesis"
    by (auto simp: storage_add_def Let_def comp_def split: if_splits sum.splits)
qed

lemma storage_add_inv:
  assumes "storage_inv sz st" "storage_add st batch = Inr (R, st')"
  shows "storage_inv sz st' \<and> max_filled st' = min (max_filled st + length batch) sz
         \<and> 0 < sz \<and> next_idx st' < sz"
proof -
  from assms have sz: "st_size st = sz" "0 < sz" and le: "max_filled st \<le> sz"
    and nx: "max_filled st < sz \<Longrightarrow> next_idx st = max_filled st"
    by (auto simp: storage_inv_def storage_add_def Let_def split: if_splits sum.splits)
  from assms(2) sz have
    mf: "max_filled st' = min (max (next_idx st + length batch) (max_filled st)) sz"
    and ni: "next_idx st' = (next_idx st + length batch) mod sz"
    and ss: "st_size st' = sz"
    by (auto simp: storage_add_def Let_def split: if_splits sum.splits)
  have eq: "max_filled st' = min (max_filled st + length batch) sz"
  proof (cases "max_filled st < sz")
    case True with nx mf show ?thesis by simp
  next
    case False with le mf show ?thesis by simp
  qed
  have "max_filled st' < sz \<Longrightarrow> next_idx st' = max_filled st'"
  proof -
    assume a: "max_filled st' < sz"
    with eq have "max_filled st + length batch < sz" by simp
    with nx ni eq show ?thesis by simp
  qed
  with eq ss sz ni show ?thesis by (simp add: storage_inv_def)
qed

lemma push_inv:
  assumes "buffer_inv b" "push b batch = Inr (R, b')"
  shows "buffer_inv b' \<and> maxsize b' = maxsize b
         \<and> filled_count b' = min (filled_count b + length batch) (maxsize b)
         \<and> buffer_len b' = Inr (filled_count b')"
proof -
  define fresh where "fresh = ReplayBufferStorage_init (maxsize b)
                    (array_shape (map state batch)) (array_shape (map action batch))"
  define st where "st = (case storage b of None \<Rightarrow> fresh
                | Some st0 \<Rightarrow> if storage_len st0 = 0 then fresh else st0)"
  have inv: "storage_inv (maxsize b) st" and mf: "max_filled st = filled_count b"
    using assms(1)
  proof -
    have f: "storage_inv (maxsize b) fresh" "max_filled fresh = 0"
      by (simp_all add: fresh_def storage_inv_init) (simp add: ReplayBufferStorage_init_def)
    from assms(1) f show "storage_inv (maxsize b) st"
      by (auto simp: st_def buffer_inv_def split: option.splits)
    from f show "max_filled st = filled_count b"
      by (auto simp: st_def filled_count_def storage_len_def split: option.splits)
  qed
  have "push b batch =
      (case storage_add st batch of Inl e \<Rightarrow> Inl e | Inr (R, st') \<Rightarrow> Inr (R, b\<lparr>storage := Some st'\<rparr>))"
    unfolding push_def Let_def st_def fresh_def by (rule refl)
  with assms(2) obtain st' where
    add: "storage_add st batch = Inr (R, st')" and b': "b' = b\<lparr>storage := Some st'\<rparr>"
    by (auto split: sum.splits)
  from storage_add_inv[OF inv add] mf b' show ?thesis
    by (simp add: buffer_inv_def filled_count_def buffer_len_def storage_len_def)
qed

lemma pushes_inv:
  "buffer_inv b \<Longrightarrow> pushes b batches = Inr (Rs, b') \<Longrightarrow> buffer_inv b' \<and> maxsize b' = maxsize b"
proof (induction batches arbitrary: b Rs)
  case Nil then show ?case by simp
next
  case (Cons x xs)
  from Cons.prems(2) obtain R b1 Rs' where
    p: "push b x = Inr (R, b1)" and r: "pushes b1 xs = Inr (Rs', b')"
    by (auto split: sum.splits)
  from push_inv[OF Cons.prems(1) p] Cons.IH[OF _ r] show ?case by simp
qed

section \<open>The segment tree: writes and the invariant\<close>

lemma length_assign [simp]: "length (assign xs idxs vals) = length xs"
proof -
  have "length (fold (\<lambda>(i, v) ys. ys[i := v]) ps xs) = length xs" for ps
    by (induction ps arbitrary: xs) auto
  then show ?thesis by (simp add: assign_def)
qed

lemma fold_update_nth:
  "j < length xs \<Longrightarrow> \<forall>p\<in>set ps. fst p < length xs \<Longrightarrow>
   fold (\<lambda>(i, v) ys. ys[i := v]) ps xs ! j =
     (case map_of (rev ps) j of None \<Rightarrow> xs ! j | Some v \<Rightarrow> v)"
proof (induction ps arbitrary: xs)
  case Nil then show ?case by simp
next
  case (Cons p ps)
  obtain i v where p: "p = (i, v)" by (cases p)
  from Cons.prems p have "fold (\<lambda>(i, v) ys. ys[i := v]) ps (xs[i := v]) ! j =
     (case map_of (rev ps) j of None \<Rightarrow> xs[i := v] ! j | Some v \<Rightarrow> v)"
    by (intro Cons.IH) auto
  with Cons.prems p show ?case
    by (auto simp: map_add_def nth_list_update split: option.splits)
qed

lemma assign_nth:
  "j < length xs \<Longrightarrow> \<forall>i\<in>set idxs. i < length xs \<Longrightarrow>
   assign xs idxs vals ! j = (case written idxs vals j of None \<Rightarrow> xs ! j | Some v \<Rightarrow> v)"
  unfolding assign_def written_def
  by (rule fold_update_nth) (auto dest: set_zip_leftD)

lemma written_None: "j \<notin> set idxs \<Longrightarrow> written idxs vals j = None"
  by (auto simp: written_def map_of_eq_None_iff dest: set_zip_leftD)

lemma written_map:
  "written idxs (map f idxs) j = (if j \<in> set idxs then Some (f j) else None)"
proof (cases "j \<in> set idxs")
  case False then show ?thesis by (simp add: written_None)
next
  case True
  have z: "zip idxs (map f idxs) = map (\<lambda>i. (i, f i)) idxs"
    by (induction idxs) auto
  have "map_of (rev (map (\<lambda>i. (i, f i)) idxs)) j = Some (f j)"
    using True by (simp add: rev_map map_of_map_restrict restrict_map_def)
  with True show ?thesis by (simp add: written_def z)
qed

lemma written_replicate:
  "written idxs (replicate (length idxs) v) j = (if j \<in> set idxs then Some v else None)"
  using written_map[of idxs "\<lambda>_. v" j] by (simp add: map_replicate_const)

lemma written_distinct:
  "distinct idxs \<Longrightarrow> length vals = length idxs \<Longrightarrow> k < length idxs \<Longrightarrow>
   written idxs vals (idxs ! k) = Some (vals ! k)"
proof -
  assume d: "distinct idxs" and l: "length vals = length idxs" and k: "k < length idxs"
  have "distinct (map fst (rev (zip idxs vals)))"
    using d l by (simp add: rev_map[symmetric])
  moreover have "(idxs ! k, vals ! k) \<in> set (rev (zip idxs vals))"
    using k l by (auto simp: set_zip)
  ultimately show ?thesis unfolding written_def by (rule map_of_is_SomeI)
qed

lemma written_shift:
  "written (map (\<lambda>i. i + c) idx) val (c + j) = written idx val j"
proof -
  have z: "zip (map (\<lambda>i. i + c) idx) val = map (\<lambda>(i, v). (i + c, v)) (zip idx val)"
    by (simp add: zip_map1)
  have "map_of (map (\<lambda>(i, v). (i + c, v)) ps) (c + j) = map_of ps j" for ps :: "(nat \<times> 'a) list"
    by (induction ps) auto
  then show ?thesis by (simp add: written_def z rev_map)
qed

lemma body_simps [simp]:
  "capacity (body t idxs) = capacity t" "operation (body t idxs) = operation t"
  "neutral_element (body t idxs) = neutral_element t"
  "length (tvalue (body t idxs)) = length (tvalue t)"
  by (simp_all add: body_def)

lemma body_nth:
  "j < length (tvalue t) \<Longrightarrow> \<forall>i\<in>set idxs. i < length (tvalue t) \<Longrightarrow>
   tvalue (body t idxs) ! j =
     (if j \<in> set idxs then operation t (tvalue t ! (2 * j)) (tvalue t ! (2 * j + 1))
      else tvalue t ! j)"
  by (simp add: body_def assign_nth written_map)

lemma setitem_loop_step:
  assumes "idxs \<noteq> []" "length idxs > 1 \<or> hd idxs > 0"
    and "\<forall>i\<in>set idxs. 2 * i + 1 < length (tvalue t)"
  shows "setitem_loop t idxs = setitem_loop (body t idxs) (compress (map (\<lambda>i. i div 2) idxs))"
proof -
  from assms(1) have "unique (map (\<lambda>i. i div 2) idxs) = Inr (compress (map (\<lambda>i. i div 2) idxs))"
    by (intro unique_compress) simp
  with assms show ?thesis
    by (subst setitem_loop.simps) (auto simp: Let_def body_def list_all_iff)
qed

lemma setitem_loop_stop: "setitem_loop t [0] = Inr t"
  by (simp add: setitem_loop.simps)

lemma compress_ne: "xs \<noteq> [] \<Longrightarrow> compress xs \<noteq> []"
  by (induction xs rule: compress.induct) auto

lemma setitem_loop_frame:
  "tree_wf t \<Longrightarrow> idxs \<noteq> [] \<Longrightarrow> \<forall>i\<in>set idxs. i < capacity t \<Longrightarrow>
   \<exists>t'. setitem_loop t idxs = Inr t' \<and> capacity t' = capacity t \<and> operation t' = operation t
      \<and> neutral_element t' = neutral_element t \<and> tree_wf t'
      \<and> (\<forall>j. capacity t \<le> j \<and> j < 2 * capacity t \<longrightarrow> tvalue t' ! j = tvalue t ! j)"
proof (induction t idxs rule: setitem_loop.induct)
  case (1 t idxs)
  show ?case
  proof (cases "length idxs > 1 \<or> hd idxs > 0")
    case False
    with "1.prems" show ?thesis by (simp add: setitem_loop.simps)
  next
    case True
    let ?t1 = "body t idxs" and ?h = "map (\<lambda>i. i div 2) idxs"
    from "1.prems" have b: "\<forall>i\<in>set idxs. 2 * i + 1 < length (tvalue t)"
      by (auto simp: tree_wf_def)
    have step: "setitem_loop t idxs = setitem_loop ?t1 (compress ?h)"
      using "1.prems"(2) True b by (rule setitem_loop_step)
    have u: "unique ?h = Inr (compress ?h)"
      using "1.prems"(2) by (intro unique_compress) simp
    have wf1: "tree_wf ?t1" using "1.prems"(1) by (simp add: tree_wf_def)
    have ne1: "compress ?h \<noteq> []" using "1.prems"(2) by (simp add: compress_ne)
    have lt1: "\<forall>i\<in>set (compress ?h). i < capacity ?t1"
      using "1.prems"(3) by (auto simp: set_compress intro: le_less_trans[OF div_le_dividend])
    have "\<exists>t'. setitem_loop ?t1 (compress ?h) = Inr t' \<and> capacity t' = capacity ?t1
        \<and> operation t' = operation ?t1 \<and> neutral_element t' = neutral_element ?t1 \<and> tree_wf t'
        \<and> (\<forall>j. capacity ?t1 \<le> j \<and> j < 2 * capacity ?t1 \<longrightarrow> tvalue t' ! j = tvalue ?t1 ! j)"
      using "1.prems"(2) True b u wf1 ne1 lt1
      by (intro "1.IH"[where x = "map (\<lambda>i. operation t (tvalue t ! (2 * i)) (tvalue t ! (2 * i + 1))) idxs"])
         (auto simp: body_def list_all_iff)
    then obtain t' where t': "setitem_loop ?t1 (compress ?h) = Inr t'" "capacity t' = capacity t"
      "operation t' = operation t" "neutral_element t' = neutral_element t" "tree_wf t'"
      "\<forall>j. capacity t \<le> j \<and> j < 2 * capacity t \<longrightarrow> tvalue t' ! j = tvalue ?t1 ! j"
      by auto
    have "tvalue ?t1 ! j = tvalue t ! j" if "capacity t \<le> j" "j < 2 * capacity t" for j
      using that "1.prems" by (subst body_nth) (auto simp: tree_wf_def)
    with t' step show ?thesis by auto
  qed
qed

lemma dirty_self: "i \<in> set idxs \<Longrightarrow> i \<in> dirty idxs"
  unfolding dirty_def by (auto intro!: bexI[of _ i] exI[of _ 0])

lemma dirty_half: "dirty (map (\<lambda>i. i div 2) idxs) \<subseteq> dirty idxs"
proof
  fix n assume "n \<in> dirty (map (\<lambda>i. i div 2) idxs)"
  then obtain i j where i: "i \<in> set idxs" and n: "n = (i div 2) div 2 ^ j"
    by (auto simp: dirty_def)
  then have "n = i div 2 ^ Suc j" by (simp add: div_mult2_eq)
  with i show "n \<in> dirty idxs" unfolding dirty_def by blast
qed

lemma dirty_cases: "n \<in> dirty idxs \<Longrightarrow> n \<in> set idxs \<or> n \<in> dirty (map (\<lambda>i. i div 2) idxs)"
proof -
  assume "n \<in> dirty idxs"
  then obtain i j where i: "i \<in> set idxs" and n: "n = i div 2 ^ j" by (auto simp: dirty_def)
  show ?thesis
  proof (cases j)
    case 0 with i n show ?thesis by simp
  next
    case (Suc j')
    with n have "n = (i div 2) div 2 ^ j'" by (simp add: div_mult2_eq)
    with i have "n \<in> dirty (map (\<lambda>i. i div 2) idxs)" unfolding dirty_def by auto
    then show ?thesis ..
  qed
qed

lemma dirty_compress: "dirty (compress xs) = dirty xs"
  by (simp add: dirty_def set_compress)

lemma dirty_zero: "dirty [0] = {0}"
  by (auto simp: dirty_def)

lemma body_good:
  assumes wf: "tree_wf t" and lv: "level k idxs" and lt: "\<forall>i\<in>set idxs. i < capacity t"
    and clean: "\<forall>n. 1 \<le> n \<and> n < capacity t \<and> n \<notin> dirty idxs \<longrightarrow> good t n"
    and n: "1 \<le> n" "n < capacity t" "n \<notin> dirty (compress (map (\<lambda>i. i div 2) idxs))"
  shows "good (body t idxs) n"
proof -
  have len: "length (tvalue t) = 2 * capacity t" using wf by (simp add: tree_wf_def)
  have in_range: "\<forall>i\<in>set idxs. i < length (tvalue t)" using lt len by auto
  have nth: "tvalue (body t idxs) ! j =
     (if j \<in> set idxs then operation t (tvalue t ! (2 * j)) (tvalue t ! (2 * j + 1))
      else tvalue t ! j)" if "j < 2 * capacity t" for j
    using that len in_range by (simp add: body_nth)
  have c1: "2 * n \<notin> set idxs" and c2: "2 * n + 1 \<notin> set idxs"
  proof -
    show "2 * n \<notin> set idxs"
    proof (cases "n \<in> set idxs")
      case True
      with lv have "2 ^ Suc k \<le> 2 * n" by (auto simp: level_def)
      with lv show ?thesis by (auto simp: level_def)
    next
      case False
      show ?thesis
      proof
        assume "2 * n \<in> set idxs"
        then have "n \<in> set (map (\<lambda>i. i div 2) idxs)" by force
        then have "n \<in> dirty (map (\<lambda>i. i div 2) idxs)" by (rule dirty_self)
        with n(3) show False by (simp add: dirty_compress)
      qed
    qed
    show "2 * n + 1 \<notin> set idxs"
    proof (cases "n \<in> set idxs")
      case True
      with lv have "2 ^ Suc k \<le> 2 * n + 1" by (auto simp: level_def)
      with lv show ?thesis by (auto simp: level_def)
    next
      case False
      show ?thesis
      proof
        assume "2 * n + 1 \<in> set idxs"
        then have "n \<in> set (map (\<lambda>i. i div 2) idxs)" by force
        then have "n \<in> dirty (map (\<lambda>i. i div 2) idxs)" by (rule dirty_self)
        with n(3) show False by (simp add: dirty_compress)
      qed
    qed
  qed
  show ?thesis
  proof (cases "n \<in> set idxs")
    case True
    with n c1 c2 show ?thesis by (simp add: good_def nth)
  next
    case False
    with n(3) have "n \<notin> dirty idxs" using dirty_cases[of n idxs] by (auto simp: dirty_compress)
    with clean n have "good t n" by simp
    with False n c1 c2 show ?thesis by (simp add: good_def nth)
  qed
qed

lemma level_half: "level (Suc k) idxs \<Longrightarrow> level k (map (\<lambda>i. i div 2) idxs)"
  by (auto simp: level_def)

lemma setitem_loop_inv:
  assumes "tree_wf t" "capacity t = 2 ^ m" "k < m" "idxs \<noteq> []" "level k idxs"
    and "\<forall>n. 1 \<le> n \<and> n < capacity t \<and> n \<notin> dirty idxs \<longrightarrow> good t n"
  shows "\<exists>t'. setitem_loop t idxs = Inr t' \<and> tree_inv t'"
  using assms
proof (induction k arbitrary: t idxs)
  case 0
  let ?t1 = "body t idxs" and ?h = "map (\<lambda>i. i div 2) idxs"
  from "0.prems" have one: "\<forall>i\<in>set idxs. i = 1" by (auto simp: level_def)
  with "0.prems" have hd: "hd idxs > 0" by (cases idxs) auto
  from "0.prems" have cap2: "2 \<le> capacity t"
    using self_le_ge2_pow[of 2 m] by (cases m) auto
  with one have lt: "\<forall>i\<in>set idxs. i < capacity t" by auto
  with "0.prems"(1) have b: "\<forall>i\<in>set idxs. 2 * i + 1 < length (tvalue t)"
    by (auto simp: tree_wf_def)
  from one have "\<forall>x\<in>set ?h. x = 0" by auto
  with "0.prems"(4) have c: "compress ?h = [0]" by (intro compress_const) auto
  have "setitem_loop t idxs = Inr ?t1"
    using setitem_loop_step[OF "0.prems"(4) _ b] hd by (simp add: c setitem_loop_stop)
  moreover have "tree_inv ?t1"
    unfolding tree_inv_def
  proof (intro allI impI)
    fix n assume "1 \<le> n \<and> n < capacity ?t1"
    then have n: "1 \<le> n" "n < capacity t" by simp_all
    then have "n \<notin> dirty (compress ?h)" by (simp add: c dirty_zero)
    with body_good[OF "0.prems"(1,5) lt "0.prems"(6) n] show "good ?t1 n" by simp
  qed
  ultimately show ?case by blast
next
  case (Suc k)
  let ?t1 = "body t idxs" and ?h = "map (\<lambda>i. i div 2) idxs"
  from Suc.prems have pos: "\<forall>i\<in>set idxs. 0 < i" by (auto simp: level_def intro: Suc_le_lessD)
  with Suc.prems(4) have hd: "hd idxs > 0" by (cases idxs) auto
  have "(2::nat) ^ Suc (Suc k) \<le> 2 ^ m" using Suc.prems(3) by (intro power_increasing) auto
  with Suc.prems have lt: "\<forall>i\<in>set idxs. i < capacity t" by (auto simp: level_def)
  with Suc.prems(1) have b: "\<forall>i\<in>set idxs. 2 * i + 1 < length (tvalue t)"
    by (auto simp: tree_wf_def)
  have step: "setitem_loop t idxs = setitem_loop ?t1 (compress ?h)"
    using setitem_loop_step[OF Suc.prems(4) _ b] hd by simp
  have "\<exists>t'. setitem_loop ?t1 (compress ?h) = Inr t' \<and> tree_inv t'"
  proof (rule Suc.IH)
    show "tree_wf ?t1" using Suc.prems(1) by (simp add: tree_wf_def)
    show "capacity ?t1 = 2 ^ m" using Suc.prems(2) by simp
    show "k < m" using Suc.prems(3) by simp
    show "compress ?h \<noteq> []" using Suc.prems(4) by (simp add: compress_ne)
    show "level k (compress ?h)"
      using level_half[OF Suc.prems(5)] by (simp add: level_def set_compress)
    show "\<forall>n. 1 \<le> n \<and> n < capacity ?t1 \<and> n \<notin> dirty (compress ?h) \<longrightarrow> good ?t1 n"
      using body_good[OF Suc.prems(1,5) lt Suc.prems(6)] by simp
  qed
  with step show ?case by simp
qed

lemma setitem_Nil: "setitem t [] val = Inl (if val = [] then IndexError else ValueError)"
  by (simp add: setitem_def unique_Nil)

lemma setitem_InrD:
  "setitem t idx val = Inr t' \<Longrightarrow> idx \<noteq> [] \<and> length val = length idx"
proof (cases "idx = []")
  case True
  then show "setitem t idx val = Inr t' \<Longrightarrow> ?thesis" by (simp add: setitem_Nil)
next
  case False
  then show "setitem t idx val = Inr t' \<Longrightarrow> ?thesis"
    by (auto simp: setitem_def Let_def split: if_splits)
qed

lemma setitem_ok:
  assumes wf: "tree_wf t" and ne: "idx \<noteq> []" and lt: "\<forall>i\<in>set idx. i < capacity t"
    and len: "length val = length idx"
  shows "\<exists>t'. setitem t idx val = Inr t' \<and> capacity t' = capacity t
      \<and> operation t' = operation t \<and> neutral_element t' = neutral_element t \<and> tree_wf t'
      \<and> (\<forall>j. j < capacity t \<longrightarrow>
            leaf t' j = (case written idx val j of None \<Rightarrow> leaf t j | Some v \<Rightarrow> v))"
proof -
  let ?idxs = "map (\<lambda>i. i + capacity t) idx"
  let ?t1 = "t\<lparr>tvalue := assign (tvalue t) ?idxs val\<rparr>"
  let ?h = "map (\<lambda>i. i div 2) ?idxs"
  have l2: "length (tvalue t) = 2 * capacity t" using wf by (simp add: tree_wf_def)
  have inr: "\<forall>i\<in>set ?idxs. i < length (tvalue t)" using lt l2 by auto
  have u: "unique ?h = Inr (compress ?h)" using ne by (intro unique_compress) simp
  have eq: "setitem t idx val = setitem_loop ?t1 (compress ?h)"
    using inr len u by (simp add: setitem_def Let_def list_all_iff)
  have wf1: "tree_wf ?t1" using wf by (simp add: tree_wf_def)
  have ne1: "compress ?h \<noteq> []" using ne by (simp add: compress_ne)
  have lt1: "\<forall>i\<in>set (compress ?h). i < capacity ?t1" using lt by (auto simp: set_compress)
  from setitem_loop_frame[OF wf1 ne1 lt1] obtain t' where
    t': "setitem_loop ?t1 (compress ?h) = Inr t'" "capacity t' = capacity t"
      "operation t' = operation t" "neutral_element t' = neutral_element t" "tree_wf t'"
      "\<forall>j. capacity t \<le> j \<and> j < 2 * capacity t \<longrightarrow> tvalue t' ! j = tvalue ?t1 ! j"
    by auto
  have "leaf t' j = (case written idx val j of None \<Rightarrow> leaf t j | Some v \<Rightarrow> v)"
    if j: "j < capacity t" for j
  proof -
    have "leaf t' j = tvalue ?t1 ! (capacity t + j)" using t' j by (simp add: leaf_def)
    also have "\<dots> = (case written ?idxs val (capacity t + j) of
                        None \<Rightarrow> tvalue t ! (capacity t + j) | Some v \<Rightarrow> v)"
      using j l2 inr by (simp add: assign_nth)
    finally show ?thesis by (simp add: written_shift leaf_def split: option.split)
  qed
  with t' eq show ?thesis by auto
qed

lemma setitem_inv:
  assumes wf: "tree_wf t" and cap: "capacity t = 2 ^ m" and inv: "tree_inv t"
    and lt: "\<forall>i\<in>set idx. i < capacity t" and res: "setitem t idx val = Inr t'"
  shows "tree_inv t'"
proof -
  from setitem_InrD[OF res] have ne: "idx \<noteq> []" and len: "length val = length idx" by simp_all
  let ?idxs = "map (\<lambda>i. i + capacity t) idx"
  let ?t1 = "t\<lparr>tvalue := assign (tvalue t) ?idxs val\<rparr>"
  let ?h = "map (\<lambda>i. i div 2) ?idxs"
  have l2: "length (tvalue t) = 2 * capacity t" using wf by (simp add: tree_wf_def)
  have inr: "\<forall>i\<in>set ?idxs. i < length (tvalue t)" using lt l2 by auto
  have u: "unique ?h = Inr (compress ?h)" using ne by (intro unique_compress) simp
  have eq: "setitem t idx val = setitem_loop ?t1 (compress ?h)"
    using inr len u by (simp add: setitem_def Let_def list_all_iff)
  have wf1: "tree_wf ?t1" using wf by (simp add: tree_wf_def)
  have ne1: "compress ?h \<noteq> []" using ne by (simp add: compress_ne)
  show ?thesis
  proof (cases m)
    case 0
    with cap have c1: "capacity t = 1" by simp
    with lt have "\<forall>x\<in>set ?h. x = 0" by auto
    with ne have "compress ?h = [0]" by (intro compress_const) auto
    with eq res have "t' = ?t1" by (simp add: setitem_loop_stop)
    with c1 show ?thesis by (simp add: tree_inv_def)
  next
    case (Suc k)
    have lv: "level k (compress ?h)"
      using lt cap Suc by (auto simp: level_def set_compress)
    have clean: "\<forall>n. 1 \<le> n \<and> n < capacity ?t1 \<and> n \<notin> dirty (compress ?h) \<longrightarrow> good ?t1 n"
    proof (intro allI impI)
      fix n assume a: "1 \<le> n \<and> n < capacity ?t1 \<and> n \<notin> dirty (compress ?h)"
      then have n: "1 \<le> n" "n < capacity t" and nd: "n \<notin> dirty ?h"
        by (simp_all add: dirty_compress)
      have nth: "tvalue ?t1 ! j = tvalue t ! j" if "j < 2 * capacity t" "j \<notin> set ?idxs" for j
        using that l2 inr by (simp add: assign_nth written_None)
      have a0: "n \<notin> set ?idxs" using n by auto
      have a1: "2 * n \<notin> set ?idxs"
      proof
        assume "2 * n \<in> set ?idxs"
        then have "(2 * n) div 2 \<in> set ?h" by (metis image_eqI set_map)
        then have "n \<in> dirty ?h" by (auto intro: dirty_self)
        with nd show False by simp
      qed
      have a2: "2 * n + 1 \<notin> set ?idxs"
      proof
        assume "2 * n + 1 \<in> set ?idxs"
        then have "(2 * n + 1) div 2 \<in> set ?h" by (metis image_eqI set_map)
        then have "n \<in> dirty ?h" by (auto intro: dirty_self)
        with nd show False by simp
      qed
      from inv n have g: "good t n" by (simp add: tree_inv_def)
      have v0: "tvalue ?t1 ! n = tvalue t ! n" using nth[of n] a0 n by simp
      have v1: "tvalue ?t1 ! (2 * n) = tvalue t ! (2 * n)" using nth[of "2 * n"] a1 n by simp
      have v2: "tvalue ?t1 ! (2 * n + 1) = tvalue t ! (2 * n + 1)"
        using nth[of "2 * n + 1"] a2 n by simp
      from g show "good ?t1 n" unfolding good_def v0 v1 v2 by simp
    qed
    from setitem_loop_inv[OF wf1 _ _ ne1 lv clean, of m] cap Suc eq res
    show ?thesis by auto
  qed
qed

lemma setitem_getitem_core:
  assumes "tree_wf t" "distinct idx" "idx \<noteq> []" "\<forall>i\<in>set idx. i < capacity t"
    and "length val = length idx"
  shows "\<exists>t'. setitem t idx val = Inr t' \<and> getitem t' idx = Inr val
      \<and> (\<forall>k. k < length idx \<longrightarrow> getitem t' [idx ! k] = Inr [val ! k])
      \<and> (\<forall>j. j < capacity t \<and> j \<notin> set idx \<longrightarrow> getitem t' [j] = getitem t [j])"
proof -
  from setitem_ok[OF assms(1,3,4,5)] obtain t' where
    t': "setitem t idx val = Inr t'" "capacity t' = capacity t" "tree_wf t'"
    and lf: "\<forall>j. j < capacity t \<longrightarrow>
            leaf t' j = (case written idx val j of None \<Rightarrow> leaf t j | Some v \<Rightarrow> v)"
    by auto
  have l2: "length (tvalue t') = 2 * capacity t" "length (tvalue t) = 2 * capacity t"
    using t' assms(1) by (simp_all add: tree_wf_def)
  have at: "leaf t' (idx ! k) = val ! k" if "k < length idx" for k
    using that lf assms(2,4,5) by (simp add: written_distinct)
  have g1: "getitem t' [j] = Inr [leaf t' j]" if "j < capacity t" for j
    using that t' l2 by (simp add: getitem_def leaf_def)
  have g0: "getitem t [j] = Inr [leaf t j]" if "j < capacity t" for j
    using that l2 by (simp add: getitem_def leaf_def)
  have "map (\<lambda>i. tvalue t' ! (capacity t' + i)) idx = val"
    using at assms(5) t' by (auto simp: list_eq_iff_nth_eq leaf_def)
  then have "getitem t' idx = Inr val"
    using assms(3,4) t' l2 by (simp add: getitem_def list_all_iff)
  moreover have "getitem t' [idx ! k] = Inr [val ! k]" if "k < length idx" for k
    using that g1[of "idx ! k"] at assms(4) by simp
  moreover have "getitem t' [j] = getitem t [j]" if "j < capacity t" "j \<notin> set idx" for j
    using that g1 g0 lf by (simp add: written_None)
  ultimately show ?thesis using t' by blast
qed

section \<open>The prioritized buffer: what every reachable buffer satisfies\<close>

lemma covers_node:
  assumes "covers t (Suc d) n ns"
  shows "1 \<le> n" "n < capacity t" "covers t d (2 * n) ns" "covers t d (2 * n + 1) (ns + 2 ^ d)"
proof -
  from assms have e: "n * (2 * 2 ^ d) = capacity t + ns" and l: "ns + 2 * 2 ^ d \<le> capacity t"
    by (simp_all add: covers_def)
  have p: "(0::nat) < 2 ^ d" by simp
  from l p have cpos: "0 < capacity t" by linarith
  with e show "1 \<le> n" by (cases n) auto
  from e l p have "n * (2 * 2 ^ d) < capacity t * 2" by linarith
  moreover have "capacity t * 2 \<le> capacity t * (2 * 2 ^ d)" using p by simp
  ultimately have "n * (2 * 2 ^ d) < capacity t * (2 * 2 ^ d)" by linarith
  then show "n < capacity t" by simp
  from e l show "covers t d (2 * n) ns" by (simp add: covers_def mult.assoc mult.left_commute)
  have "(2 * n + 1) * 2 ^ d = n * (2 * 2 ^ d) + 2 ^ d" by (simp add: algebra_simps)
  with e l show "covers t d (2 * n + 1) (ns + 2 ^ d)" by (simp add: covers_def)
qed

lemma subtree_sum:
  fixes t :: "real segment_tree"
  assumes "tree_inv t" "operation t = (\<lambda>a b. a + b)"
  shows "covers t d n ns \<Longrightarrow> tvalue t ! n = (\<Sum>i = ns..<ns + 2 ^ d. leaf t i)"
proof (induction d arbitrary: n ns)
  case 0
  then show ?case by (simp add: covers_def leaf_def)
next
  case (Suc d)
  note c = covers_node[OF Suc.prems]
  from assms c(1,2) have "tvalue t ! n = tvalue t ! (2 * n) + tvalue t ! (2 * n + 1)"
    by (simp add: tree_inv_def good_def)
  also have "\<dots> = (\<Sum>i = ns..<ns + 2 ^ d. leaf t i) + (\<Sum>i = ns + 2 ^ d..<ns + 2 ^ d + 2 ^ d. leaf t i)"
    using Suc.IH[OF c(3)] Suc.IH[OF c(4)] by simp
  also have "\<dots> = (\<Sum>i = ns..<ns + 2 ^ Suc d. leaf t i)"
    by (simp add: sum.atLeastLessThan_concat mult_2 add.assoc)
  finally show ?case .
qed

lemma covers_root: "capacity t = 2 ^ m \<Longrightarrow> covers t m 1 0"
  by (simp add: covers_def)

lemma root_sum:
  fixes t :: "real segment_tree"
  assumes "tree_inv t" "operation t = (\<lambda>a b. a + b)" "capacity t = 2 ^ m"
  shows "tvalue t ! 1 = (\<Sum>i<capacity t. leaf t i)"
  using subtree_sum[OF assms(1,2) covers_root[OF assms(3)]] assms(3)
  by (simp add: lessThan_atLeast0)

lemma reduce_full:
  assumes "tree_wf t" "0 < capacity t"
  shows "reduce t 0 (Some (int (capacity t))) = Inr (tvalue t ! 1)"
    and "reduce t 0 None = Inr (tvalue t ! 1)"
  using assms by (simp_all add: reduce_def recursion_limit_def reduce_helper_pos tree_wf_def)

lemma setitem_props:
  assumes "tree_wf t" "\<forall>i\<in>set idx. i < capacity t" "setitem t idx val = Inr t'"
  shows "capacity t' = capacity t" "operation t' = operation t" "tree_wf t'"
    "\<forall>j. j < capacity t \<longrightarrow>
       leaf t' j = (case written idx val j of None \<Rightarrow> leaf t j | Some v \<Rightarrow> v)"
proof -
  from setitem_InrD[OF assms(3)] have "idx \<noteq> []" "length val = length idx" by simp_all
  from setitem_ok[OF assms(1) this(1) assms(2) this(2)] assms(3)
  show "capacity t' = capacity t" "operation t' = operation t" "tree_wf t'"
    "\<forall>j. j < capacity t \<longrightarrow>
       leaf t' j = (case written idx val j of None \<Rightarrow> leaf t j | Some v \<Rightarrow> v)"
    by auto
qed

lemma push_result:
  assumes "buffer_inv b" "push b batch = Inr (R, b')"
  shows "\<exists>st'. b' = b\<lparr>storage := Some st'\<rparr>" "\<forall>i\<in>set R. i < maxsize b" "length R = length batch"
proof -
  define fresh where "fresh = ReplayBufferStorage_init (maxsize b)
                    (array_shape (map state batch)) (array_shape (map action batch))"
  define st where "st = (case storage b of None \<Rightarrow> fresh
                | Some st0 \<Rightarrow> if storage_len st0 = 0 then fresh else st0)"
  have sz: "st_size st = maxsize b"
    using assms(1)
    by (auto simp: st_def fresh_def buffer_inv_def storage_inv_def ReplayBufferStorage_init_def
        split: option.splits)
  have "push b batch =
      (case storage_add st batch of Inl e \<Rightarrow> Inl e | Inr (R, st') \<Rightarrow> Inr (R, b\<lparr>storage := Some st'\<rparr>))"
    unfolding push_def Let_def st_def fresh_def by (rule refl)
  with assms(2) obtain st' where
    add: "storage_add st batch = Inr (R, st')" and b': "b' = b\<lparr>storage := Some st'\<rparr>"
    by (auto split: sum.splits)
  from b' show "\<exists>st'. b' = b\<lparr>storage := Some st'\<rparr>" by blast
  from add sz have "0 < maxsize b"
    by (auto simp: storage_add_def Let_def split: if_splits sum.splits)
  with storage_add_R[OF add] sz show "\<forall>i\<in>set R. i < maxsize b" "length R = length batch"
    by auto
qed

lemma init_inv:
  assumes "PrioritizedReplayBuffer_init sz a be = Some (Inr b)"
  shows "prb_inv b" "maxsize b = sz" "alpha b = a" "beta b = be" "storage b = None"
    "max_priority b = 1"
proof -
  from assms have a: "0 \<le> a"
    by (auto simp: PrioritizedReplayBuffer_init_def split: if_splits)
  from init_ok[OF a, of sz be] assms obtain m where
    b: "b = \<lparr>storage = None, maxsize = sz, alpha = a, beta = be,
                      it_sum = \<lparr>capacity = 2 ^ m, tvalue = replicate (2 * 2 ^ m) 0,
                                 operation = (\<lambda>a b. a + b), neutral_element = 0\<rparr>,
                      it_min = \<lparr>capacity = 2 ^ m, tvalue = replicate (2 * 2 ^ m) PInf,
                                 operation = minimum, neutral_element = PInf\<rparr>,
                      max_priority = 1\<rparr>" and sz: "sz \<le> 2 ^ m"
    by auto
  show "maxsize b = sz" "alpha b = a" "beta b = be" "storage b = None" "max_priority b = 1"
    by (simp_all add: b)
  have "prb_inv b"
    unfolding prb_inv_def
    using a sz by (auto simp: b tree_wf_def tree_inv_def good_def buffer_inv_def)
  then show "prb_inv b" .
qed

lemma prioritized_push_inv:
  assumes inv: "prb_inv b" and res: "prioritized_push b batch priorities = Inr (r, b')"
  shows "prb_inv b'" "r = None" "maxsize b' = maxsize b" "alpha b' = alpha b"
    "beta b' = beta b" "max_priority b' = max_priority b"
proof -
  from res obtain R b1 v s mn where
    p: "push b batch = Inr (R, b1)"
    and s: "setitem_scalar (it_sum b1) R v = Inr s"
    and mn: "setitem_scalar (it_min b1) R (Fin v) = Inr mn"
    and b': "b' = b1\<lparr>it_sum := s, it_min := mn\<rparr>" and r: "r = None"
    by (auto simp: prioritized_push_def Let_def split: sum.splits prod.splits)
  from inv have binv: "buffer_inv b" by (simp add: prb_inv_def)
  from push_result[OF binv p] obtain st' where b1: "b1 = b\<lparr>storage := Some st'\<rparr>"
    and R: "\<forall>i\<in>set R. i < maxsize b" by auto
  from push_inv[OF binv p] have binv1: "buffer_inv b1" by simp
  from inv obtain m where m: "capacity (it_sum b) = 2 ^ m" "capacity (it_min b) = 2 ^ m"
    "maxsize b \<le> 2 ^ m" by (auto simp: prb_inv_def)
  from R m have Rs: "\<forall>i\<in>set R. i < capacity (it_sum b)" and Rm: "\<forall>i\<in>set R. i < capacity (it_min b)"
    by auto
  from s b1 have s': "setitem (it_sum b) R (replicate (length R) v) = Inr s"
    by (simp add: setitem_scalar_def)
  from mn b1 have mn': "setitem (it_min b) R (replicate (length R) (Fin v)) = Inr mn"
    by (simp add: setitem_scalar_def)
  from inv have wfs: "tree_wf (it_sum b)" and wfm: "tree_wf (it_min b)"
    and invs: "tree_inv (it_sum b)" and invm: "tree_inv (it_min b)"
    by (simp_all add: prb_inv_def)
  note ps = setitem_props[OF wfs Rs s'] and pm = setitem_props[OF wfm Rm mn']
  note ivs = setitem_inv[OF wfs m(1) invs Rs s'] and ivm = setitem_inv[OF wfm m(2) invm Rm mn']
  from binv1 have "buffer_inv b'" by (auto simp: b' buffer_inv_def split: option.splits)
  with inv ps(1-3) pm(1-3) ivs ivm m show "prb_inv b'"
    unfolding prb_inv_def by (auto simp: b' b1)
  show "r = None" by (rule r)
  show "maxsize b' = maxsize b" "alpha b' = alpha b" "beta b' = beta b"
    "max_priority b' = max_priority b" by (simp_all add: b' b1)
qed

lemma update_priorities_inv:
  assumes inv: "prb_inv b" and res: "update_priorities b idxes priorities = Inr b'"
  shows "prb_inv b'" "maxsize b' = maxsize b" "alpha b' = alpha b" "beta b' = beta b"
    "storage b' = storage b" "max_priority b' = max (max_priority b) (Max (set priorities))"
proof -
  from res obtain st s mn where st: "storage b = Some st"
    and rng: "\<forall>i\<in>set idxes. 0 \<le> i \<and> i < int (storage_len st)"
    and s: "setitem (it_sum b) (map nat idxes) (map (\<lambda>p. p powr alpha b) priorities) = Inr s"
    and mn: "setitem (it_min b) (map nat idxes) (map Fin (map (\<lambda>p. p powr alpha b) priorities)) = Inr mn"
    and b': "b' = b\<lparr>it_sum := s, it_min := mn,
                    max_priority := max (max_priority b) (Max (set priorities))\<rparr>"
    by (auto simp: update_priorities_def Let_def list_all_iff
        split: sum.splits option.splits if_splits)
  from inv obtain m where m: "capacity (it_sum b) = 2 ^ m" "capacity (it_min b) = 2 ^ m"
    "maxsize b \<le> 2 ^ m" by (auto simp: prb_inv_def)
  from inv st have "max_filled st \<le> maxsize b"
    by (simp add: prb_inv_def buffer_inv_def storage_inv_def)
  then have mf: "max_filled st \<le> 2 ^ m" using m(3) by simp
  have "nat i < 2 ^ m" if "i \<in> set idxes" for i
  proof -
    from rng that have "nat i < max_filled st" by (simp add: storage_len_def nat_less_iff)
    then show ?thesis using mf by (rule less_le_trans)
  qed
  with m have Rs: "\<forall>i\<in>set (map nat idxes). i < capacity (it_sum b)"
    and Rm: "\<forall>i\<in>set (map nat idxes). i < capacity (it_min b)"
    by auto
  from inv have wfs: "tree_wf (it_sum b)" and wfm: "tree_wf (it_min b)"
    and invs: "tree_inv (it_sum b)" and invm: "tree_inv (it_min b)"
    by (simp_all add: prb_inv_def)
  note ps = setitem_props[OF wfs Rs s] and pm = setitem_props[OF wfm Rm mn]
  note ivs = setitem_inv[OF wfs m(1) invs Rs s] and ivm = setitem_inv[OF wfm m(2) invm Rm mn]
  from inv have "buffer_inv b'" by (auto simp: b' buffer_inv_def prb_inv_def split: option.splits)
  with inv ps(1-3) pm(1-3) ivs ivm m show "prb_inv b'"
    unfolding prb_inv_def by (auto simp: b')
  show "maxsize b' = maxsize b" "alpha b' = alpha b" "beta b' = beta b"
    "storage b' = storage b" "max_priority b' = max (max_priority b) (Max (set priorities))"
    by (simp_all add: b')
qed

lemma run_inv:
  "prb_inv b \<Longrightarrow> run b calls = Inr b' \<Longrightarrow>
   prb_inv b' \<and> maxsize b' = maxsize b \<and> alpha b' = alpha b \<and> beta b' = beta b"
proof (induction calls arbitrary: b)
  case Nil then show ?case by simp
next
  case (Cons c calls)
  show ?case
  proof (cases c)
    case (Push batch priorities)
    with Cons.prems(2) obtain r b1 where
      1: "prioritized_push b batch priorities = Inr (r, b1)" and 2: "run b1 calls = Inr b'"
      by (auto split: sum.splits)
    from prioritized_push_inv[OF Cons.prems(1) 1] Cons.IH[OF _ 2] show ?thesis by simp
  next
    case (UpdatePriorities idxes priorities)
    with Cons.prems(2) obtain b1 where
      1: "update_priorities b idxes priorities = Inr b1" and 2: "run b1 calls = Inr b'"
      by (auto split: sum.splits)
    from update_priorities_inv[OF Cons.prems(1) 1] Cons.IH[OF _ 2] show ?thesis by simp
  qed
qed

lemma reachable_inv:
  assumes "PrioritizedReplayBuffer_init sz a be = Some (Inr b0)" "run b0 calls = Inr b"
  shows "prb_inv b" "maxsize b = sz" "alpha b = a" "beta b = be"
  using run_inv[OF init_inv(1)[OF assms(1)] assms(2)] init_inv(2-4)[OF assms(1)]
  by simp_all

lemma update_priorities_bad_priority:
  "\<exists>p\<in>set priorities. p \<le> 0 \<Longrightarrow> update_priorities b idxes priorities = Inl AssertionError"
  by (auto simp: update_priorities_def list_all_iff)

lemma update_priorities_bad_index:
  assumes "\<exists>i\<in>set idxes. i < 0 \<or> int (filled_count b) \<le> i"
  shows "update_priorities b idxes priorities =
           Inl (if length idxes = length priorities \<and> (\<forall>p\<in>set priorities. 0 < p)
                   \<and> (\<forall>i\<in>set idxes. 0 \<le> i) \<and> storage b = None
                then TypeError else AssertionError)"
proof -
  from assms have ne: "idxes \<noteq> []" by auto
  show ?thesis
  proof (cases "storage b")
    case None
    with ne show ?thesis
      by (auto simp: update_priorities_def list_all_iff)
  next
    case (Some st)
    with assms obtain i where "i \<in> set idxes" "i < 0 \<or> int (storage_len st) \<le> i"
      by (auto simp: filled_count_def storage_len_def)
    then have "\<not> (\<forall>i\<in>set idxes. 0 \<le> i) \<or> \<not> (\<forall>i\<in>set idxes. i < int (storage_len st))"
      by (metis not_le)
    with ne Some show ?thesis
      by (auto simp: update_priorities_def list_all_iff)
  qed
qed

lemma update_priorities_ok:
  assumes inv: "prb_inv b" and len: "length idxes = length priorities" and ne: "priorities \<noteq> []"
    and pos: "\<forall>p\<in>set priorities. 0 < p"
    and rng: "\<forall>i\<in>set idxes. 0 \<le> i \<and> i < int (filled_count b)"
  shows "\<exists>b'. update_priorities b idxes priorities = Inr b' \<and> storage b' = storage b
     \<and> (\<forall>j<capacity (it_sum b).
           leaf (it_sum b') j =
             (case written (map nat idxes) (map (\<lambda>p. p powr alpha b) priorities) j of
                None \<Rightarrow> leaf (it_sum b) j | Some v \<Rightarrow> v)
         \<and> leaf (it_min b') j =
             (case written (map nat idxes) (map (\<lambda>p. Fin (p powr alpha b)) priorities) j of
                None \<Rightarrow> leaf (it_min b) j | Some v \<Rightarrow> v))
     \<and> max_priority b' = max (max_priority b) (Max (set priorities))"
proof -
  let ?idx = "map nat idxes" and ?vals = "map (\<lambda>p. p powr alpha b) priorities"
  from len ne have ine: "idxes \<noteq> []" by auto
  with rng obtain st where st: "storage b = Some st"
    by (cases "storage b"; cases idxes) (auto simp: filled_count_def)
  with rng have rng': "\<forall>i\<in>set idxes. 0 \<le> i \<and> i < int (storage_len st)"
    by (simp add: filled_count_def storage_len_def)
  from inv obtain m where m: "capacity (it_sum b) = 2 ^ m" "capacity (it_min b) = 2 ^ m"
    "maxsize b \<le> 2 ^ m" by (auto simp: prb_inv_def)
  from inv st have "max_filled st \<le> maxsize b"
    by (simp add: prb_inv_def buffer_inv_def storage_inv_def)
  then have mf: "max_filled st \<le> 2 ^ m" using m(3) by simp
  have "nat i < 2 ^ m" if "i \<in> set idxes" for i
  proof -
    from rng' that have "nat i < max_filled st" by (simp add: storage_len_def nat_less_iff)
    then show ?thesis using mf by (rule less_le_trans)
  qed
  with m have Rs: "\<forall>i\<in>set ?idx. i < capacity (it_sum b)"
    and Rm: "\<forall>i\<in>set ?idx. i < capacity (it_min b)"
    by auto
  from inv have wfs: "tree_wf (it_sum b)" and wfm: "tree_wf (it_min b)"
    by (simp_all add: prb_inv_def)
  from ine have ne': "?idx \<noteq> []" by simp
  from setitem_ok[OF wfs ne' Rs, of ?vals] len obtain s where
    s: "setitem (it_sum b) ?idx ?vals = Inr s" by auto
  from setitem_ok[OF wfm ne' Rm, of "map Fin ?vals"] len obtain mn where
    mn: "setitem (it_min b) ?idx (map Fin ?vals) = Inr mn" by auto
  note ps = setitem_props[OF wfs Rs s] and pm = setitem_props[OF wfm Rm mn]
  let ?b' = "b\<lparr>it_sum := s, it_min := mn,
                    max_priority := max (max_priority b) (Max (set priorities))\<rparr>"
  have "update_priorities b idxes priorities = Inr ?b'"
    using len ne pos rng' st s mn
    by (simp add: update_priorities_def Let_def list_all_iff)
  moreover have "\<forall>j<capacity (it_sum b).
           leaf (it_sum ?b') j =
             (case written ?idx ?vals j of None \<Rightarrow> leaf (it_sum b) j | Some v \<Rightarrow> v)
         \<and> leaf (it_min ?b') j =
             (case written ?idx (map (\<lambda>p. Fin (p powr alpha b)) priorities) j of
                None \<Rightarrow> leaf (it_min b) j | Some v \<Rightarrow> v)"
    using ps(4) pm(4) m by (simp add: comp_def)
  ultimately show ?thesis by (intro exI[of _ ?b']) simp
qed

section \<open>The sum tree: the descent of find\_prefixsum\_idx\<close>

lemma zip_replicate_True: "zip xs (replicate (length xs) c) = map (\<lambda>x. (x, c)) xs"
  by (induction xs) auto

lemma prefixsum_loop_exit:
  "\<not> list_ex (\<lambda>c. c) cont \<Longrightarrow> prefixsum_loop t idx ps cont = Some (Inr idx)"
  by (simp add: prefixsum_loop.simps)

lemma prefixsum_loop_step:
  assumes "length ps = length idx" "idx \<noteq> []" "\<forall>i\<in>set idx. 2 * i < length (tvalue t)"
  shows "prefixsum_loop t idx ps (replicate (length idx) True) =
     prefixsum_loop t
       (map2 (\<lambda>i p. if tvalue t ! (2 * i) > p then 2 * i else 2 * i + 1) idx ps)
       (map2 (\<lambda>i p. if tvalue t ! (2 * i) \<le> p then p - tvalue t ! (2 * i) else p) idx ps)
       (map (\<lambda>i. i < capacity t)
          (map2 (\<lambda>i p. if tvalue t ! (2 * i) > p then 2 * i else 2 * i + 1) idx ps))"
proof -
  let ?cont = "replicate (length idx) True"
  let ?idx1 = "map2 (\<lambda>i c. if c then 2 * i else i) idx ?cont"
  have i1: "?idx1 = map (\<lambda>i. 2 * i) idx" by (simp add: zip_replicate_True)
  have ex: "list_ex (\<lambda>c. c) ?cont" using assms(2) by (cases idx) auto
  have bd: "list_all (\<lambda>i. i < length (tvalue t)) ?idx1"
    using assms(3) by (simp add: i1 list_all_iff)
  let ?v = "map (\<lambda>i. tvalue t ! i) ?idx1"
  have a: "map2 (\<lambda>x p. if x \<le> p then p - x else p) ?v ps =
        map2 (\<lambda>i p. if tvalue t ! (2 * i) \<le> p then p - tvalue t ! (2 * i) else p) idx ps"
    using assms(1) unfolding i1 by (induction ps idx rule: list_induct2) auto
  have b: "map (\<lambda>(i, x, p, c). if x > p \<or> \<not> c then i else i + 1)
                       (zip ?idx1 (zip ?v (zip ps ?cont))) =
        map2 (\<lambda>i p. if tvalue t ! (2 * i) > p then 2 * i else 2 * i + 1) idx ps"
    using assms(1) unfolding i1 by (induction ps idx rule: list_induct2) auto
  show ?thesis
    apply (subst prefixsum_loop.simps)
    apply (simp only: ex bd if_True not_True_eq_False if_False Let_def a b)
    done
qed

lemma map_all_const: "\<forall>x\<in>set xs. f x = c \<Longrightarrow> map f xs = replicate (length xs) c"
  by (induction xs) auto

lemma set_map2_subset:
  "set (map2 f xs ys) \<subseteq> {f x y | x y. x \<in> set xs \<and> y \<in> set ys}"
  by (auto dest: set_zip_leftD set_zip_rightD)

lemma prefixsum_loop_lockstep:
  assumes wf: "tree_wf t" and cap: "capacity t = 2 ^ m"
  shows "k + d = m \<Longrightarrow> 0 < d \<Longrightarrow> level k idx \<Longrightarrow> idx \<noteq> [] \<Longrightarrow> length ps = length idx \<Longrightarrow>
    prefixsum_loop t idx ps (replicate (length idx) True) = Some (Inr (map2 (descend t d) idx ps))"
proof (induction d arbitrary: k idx ps)
  case 0 then show ?case by simp
next
  case (Suc d)
  let ?idx2 = "map2 (\<lambda>i p. if tvalue t ! (2 * i) > p then 2 * i else 2 * i + 1) idx ps"
  let ?ps2 = "map2 (\<lambda>i p. if tvalue t ! (2 * i) \<le> p then p - tvalue t ! (2 * i) else p) idx ps"
  have l2: "length (tvalue t) = 2 * 2 ^ m" using wf cap by (simp add: tree_wf_def)
  have "(2::nat) ^ Suc k \<le> 2 ^ m" using Suc.prems(1) by (intro power_increasing) auto
  with Suc.prems(3) have lt: "\<forall>i\<in>set idx. i < 2 ^ m" by (auto simp: level_def)
  then have bd: "\<forall>i\<in>set idx. 2 * i < length (tvalue t)" by (auto simp: l2)
  have step: "prefixsum_loop t idx ps (replicate (length idx) True) =
     prefixsum_loop t ?idx2 ?ps2 (map (\<lambda>i. i < capacity t) ?idx2)"
    using Suc.prems(5,4) bd by (rule prefixsum_loop_step)
  have len2: "length ?idx2 = length idx" "length ?ps2 = length ?idx2" using Suc.prems(5) by simp_all
  have ne2: "?idx2 \<noteq> []" using Suc.prems(4,5) by (cases idx; cases ps) auto
  have lv2: "level (Suc k) ?idx2"
    using Suc.prems(3) set_map2_subset[of "\<lambda>i p. if tvalue t ! (2 * i) > p then 2 * i else 2 * i + 1" idx ps]
    by (fastforce simp: level_def)
  have desc: "map2 (descend t (Suc d)) idx ps = map2 (descend t d) ?idx2 ?ps2"
    using Suc.prems(5) by (induction ps idx rule: list_induct2) auto
  show ?case
  proof (cases d)
    case 0
    with Suc.prems(1) have "Suc k = m" by simp
    with lv2 cap have "\<forall>i\<in>set ?idx2. \<not> i < capacity t" by (auto simp: level_def)
    then have "\<not> list_ex (\<lambda>c. c) (map (\<lambda>i. i < capacity t) ?idx2)"
      by (simp add: list_ex_iff)
    from prefixsum_loop_exit[OF this] step have
      "prefixsum_loop t idx ps (replicate (length idx) True) = Some (Inr ?idx2)" by simp
    moreover have "map2 (descend t d) ?idx2 ?ps2 = ?idx2"
      unfolding 0 using Suc.prems(5) by (induction ps idx rule: list_induct2) auto
    ultimately show ?thesis by (simp only: desc)
  next
    case (Suc d')
    with Suc.prems(1) have "(2::nat) ^ Suc (Suc k) \<le> 2 ^ m" by (intro power_increasing) auto
    with lv2 cap have "\<forall>i\<in>set ?idx2. (i < capacity t) = True" by (auto simp: level_def)
    then have c2: "map (\<lambda>i. i < capacity t) ?idx2 = replicate (length ?idx2) True"
      by (rule map_all_const)
    have "prefixsum_loop t ?idx2 ?ps2 (replicate (length ?idx2) True) =
        Some (Inr (map2 (descend t d) ?idx2 ?ps2))"
      using Suc.prems(1) Suc lv2 ne2 len2(2) by (intro Suc.IH[of "Suc k"]) simp_all
    with step c2 show ?thesis by (simp only: desc)
  qed
qed

lemma descend_correct:
  fixes t :: "real segment_tree"
  assumes inv: "tree_inv t" and op: "operation t = (\<lambda>a b. a + b)"
  shows "covers t d n ns \<Longrightarrow> 0 \<le> p \<Longrightarrow> p < tvalue t ! n \<Longrightarrow>
    \<exists>i. descend t d n p = capacity t + i \<and> ns \<le> i \<and> i < ns + 2 ^ d
       \<and> (\<Sum>j = ns..<i. leaf t j) \<le> p \<and> p < (\<Sum>j = ns..<Suc i. leaf t j)"
proof (induction d arbitrary: n ns p)
  case 0
  then show ?case by (auto simp: covers_def leaf_def intro!: exI[of _ ns])
next
  case (Suc d)
  note c = covers_node[OF Suc.prems(1)]
  from inv op c(1,2) have node: "tvalue t ! n = tvalue t ! (2 * n) + tvalue t ! (2 * n + 1)"
    by (simp add: tree_inv_def good_def)
  have left: "tvalue t ! (2 * n) = (\<Sum>j = ns..<ns + 2 ^ d. leaf t j)"
    by (rule subtree_sum[OF inv op c(3)])
  show ?case
  proof (cases "tvalue t ! (2 * n) > p")
    case True
    from Suc.IH[OF c(3) Suc.prems(2) True] obtain i where
      i: "descend t d (2 * n) p = capacity t + i" "ns \<le> i" "i < ns + 2 ^ d"
        "(\<Sum>j = ns..<i. leaf t j) \<le> p" "p < (\<Sum>j = ns..<Suc i. leaf t j)" by blast
    with True show ?thesis by (intro exI[of _ i]) simp
  next
    case False
    let ?p = "p - tvalue t ! (2 * n)"
    from False Suc.prems(3) node have p': "0 \<le> ?p" "?p < tvalue t ! (2 * n + 1)" by simp_all
    from Suc.IH[OF c(4) p'] obtain i where
      i: "descend t d (2 * n + 1) ?p = capacity t + i" "ns + 2 ^ d \<le> i" "i < ns + 2 ^ d + 2 ^ d"
        "(\<Sum>j = ns + 2 ^ d..<i. leaf t j) \<le> ?p" "?p < (\<Sum>j = ns + 2 ^ d..<Suc i. leaf t j)"
      by blast
    have s1: "(\<Sum>j = ns..<i. leaf t j) = tvalue t ! (2 * n) + (\<Sum>j = ns + 2 ^ d..<i. leaf t j)"
      using i(2) by (simp add: left sum.atLeastLessThan_concat)
    have s2: "(\<Sum>j = ns..<Suc i. leaf t j) =
        tvalue t ! (2 * n) + (\<Sum>j = ns + 2 ^ d..<Suc i. leaf t j)"
      using i(2) unfolding left by (subst sum.atLeastLessThan_concat) simp_all
    from False i s1 s2 show ?thesis by (intro exI[of _ i]) simp
  qed
qed

lemma zip_replicate_left: "zip (replicate (length ys) c) ys = map (\<lambda>y. (c, y)) ys"
  by (induction ys) auto

lemma cumsum_root:
  fixes t :: "real segment_tree"
  assumes "tree_inv t" "operation t = (\<lambda>a b. a + b)" "capacity t = 2 ^ m"
  shows "tvalue t ! 1 = cumsum t (capacity t)"
  using root_sum[OF assms] by (simp add: cumsum_def)

lemma find_prefixsum_idx_core:
  fixes t :: "real segment_tree"
  assumes wf: "tree_wf t" and inv: "tree_inv t" and op: "operation t = (\<lambda>a b. a + b)"
    and cap: "capacity t = 2 ^ m" and m: "0 < m" and ne: "ts \<noteq> []"
    and rng: "\<forall>p\<in>set ts. 0 \<le> p \<and> p < cumsum t (capacity t)"
  shows "find_prefixsum_idx t ts = Some (Inr (map (\<lambda>p. descend t m 1 p - capacity t) ts))"
    and "\<forall>p\<in>set ts. descend t m 1 p - capacity t < capacity t
           \<and> cumsum t (descend t m 1 p - capacity t) \<le> p
           \<and> p < cumsum t (Suc (descend t m 1 p - capacity t))"
proof -
  have pos: "0 < capacity t" using cap by simp
  have root: "tvalue t ! 1 = cumsum t (capacity t)" by (rule cumsum_root[OF inv op cap])
  have total: "tree_sum t 0 None = Inr (cumsum t (capacity t))"
    using reduce_full(2)[OF wf pos] root by (simp add: tree_sum_def)
  have c1: "list_all (\<lambda>p. 0 \<le> p) ts" using rng by (simp add: list_all_iff)
  have c2: "list_all (\<lambda>p. p \<le> cumsum t (capacity t) + 1 / 100000) ts"
    using rng by (auto simp: list_all_iff)
  have lv: "level 0 (replicate (length ts) 1)" by (simp add: level_def)
  have "prefixsum_loop t (replicate (length ts) 1) ts (replicate (length (replicate (length ts) (1::nat))) True)
      = Some (Inr (map2 (descend t m) (replicate (length ts) 1) ts))"
    using m ne lv by (intro prefixsum_loop_lockstep[OF wf cap, of 0]) simp_all
  then have loop: "prefixsum_loop t (replicate (length ts) 1) ts (replicate (length ts) True)
      = Some (Inr (map (descend t m 1) ts))"
    by (simp add: zip_replicate_left)
  show "find_prefixsum_idx t ts = Some (Inr (map (\<lambda>p. descend t m 1 p - capacity t) ts))"
    using ne c1 c2 loop by (simp add: find_prefixsum_idx_def total comp_def)
  show "\<forall>p\<in>set ts. descend t m 1 p - capacity t < capacity t
           \<and> cumsum t (descend t m 1 p - capacity t) \<le> p
           \<and> p < cumsum t (Suc (descend t m 1 p - capacity t))"
  proof
    fix p assume "p \<in> set ts"
    with rng root have p: "0 \<le> p" "p < tvalue t ! 1" by simp_all
    from descend_correct[OF inv op covers_root[OF cap] p] cap obtain i where
      "descend t m 1 p = capacity t + i" "i < capacity t"
      "(\<Sum>j = 0..<i. leaf t j) \<le> p" "p < (\<Sum>j = 0..<Suc i. leaf t j)" by auto
    then show "descend t m 1 p - capacity t < capacity t
           \<and> cumsum t (descend t m 1 p - capacity t) \<le> p
           \<and> p < cumsum t (Suc (descend t m 1 p - capacity t))"
      by (simp add: cumsum_def lessThan_atLeast0)
  qed
qed

lemma cumsum_mono:
  fixes t :: "real segment_tree"
  assumes "\<forall>i<capacity t. 0 \<le> leaf t i" "a \<le> b" "b \<le> capacity t"
  shows "cumsum t a \<le> cumsum t b"
  unfolding cumsum_def using assms by (intro sum_mono2) auto




section \<open>Range queries of the sum tree\<close>

text \<open>
  A query whose right end lies left of the node never matches a node and recurses until the
  recursion limit; a query inside the range of a node returns the sum of the leaves it names.
\<close>

lemma reduce_helper_below:
  "e < ns \<Longrightarrow> ns \<le> ne \<Longrightarrow> reduce_helper d t s e n ns ne = Inl RecursionError"
proof (induction d arbitrary: n ne)
  case 0 then show ?case by simp
next
  case (Suc d)
  let ?mid = "(ns + ne) div 2"
  from Suc.prems have m: "ns \<le> ?mid" by linarith
  with Suc.prems have "e \<le> ?mid" "e \<noteq> ne" by linarith+
  with Suc.IH[OF Suc.prems(1) m] show ?case by (simp add: Let_def)
qed

lemma mid_pow2: "(int ns + (int (ns + 2 ^ Suc d) - 1)) div 2 = int (ns + 2 ^ d) - 1"
proof -
  have "(int ns + (int ns + 2 * x - 1)) div 2 = int ns + x - 1" for x :: int by linarith
  from this[of "2 ^ d"] show ?thesis by (simp add: algebra_simps)
qed

lemma int_nat_cmp:
  fixes a b k :: nat
  shows "(int b \<le> int k - 1) = (b < k)" "(int k - 1 + 1 \<le> int a) = (k \<le> a)"
    "int k - 1 + 1 = int k" "0 < k \<Longrightarrow> int k - 1 = int (k - 1)"
  by linarith+

lemma reduce_helper_range:
  fixes t :: "real segment_tree"
  assumes wf: "tree_wf t" and inv: "tree_inv t" and op: "operation t = (\<lambda>a b. a + b)"
  shows "covers t d n ns \<Longrightarrow> ns \<le> a \<Longrightarrow> a \<le> b \<Longrightarrow> b < ns + 2 ^ d \<Longrightarrow> d < fuel \<Longrightarrow>
    reduce_helper fuel t (int a) (int b) n (int ns) (int (ns + 2 ^ d) - 1) =
      Inr (\<Sum>i = a..b. leaf t i)"
proof (induction d arbitrary: fuel n ns a b)
  case 0
  then obtain f where f: "fuel = Suc f" by (cases fuel) auto
  from 0 have ab: "a = ns" "b = ns" by simp_all
  from 0(1) have n: "n = capacity t + ns" "ns < capacity t" by (simp_all add: covers_def)
  with wf have "n < length (tvalue t)" by (simp add: tree_wf_def)
  with n show ?case by (simp add: f ab leaf_def)
next
  case (Suc d)
  then obtain f where f: "fuel = Suc f" and df: "d < f" by (cases fuel) auto
  note c = covers_node[OF Suc.prems(1)]
  have len: "n < length (tvalue t)" using c(2) wf by (simp add: tree_wf_def)
  let ?mid = "int (ns + 2 ^ d) - 1"
  have cond_eq: "(int a = int ns \<and> int b = int (ns + 2 ^ Suc d) - 1) =
      (a = ns \<and> b + 1 = ns + 2 ^ Suc d)"
  proof -
    have "(int b = int (ns + x) - 1) = (b + 1 = ns + x)" for x :: nat by linarith
    from this[of "2 ^ Suc d"] show ?thesis by simp
  qed
  have unfold: "reduce_helper fuel t (int a) (int b) n (int ns) (int (ns + 2 ^ Suc d) - 1) =
     (if a = ns \<and> b + 1 = ns + 2 ^ Suc d then Inr (tvalue t ! n)
      else if int b \<le> ?mid then reduce_helper f t (int a) (int b) (2 * n) (int ns) ?mid
      else if ?mid + 1 \<le> int a then
        reduce_helper f t (int a) (int b) (2 * n + 1) (?mid + 1) (int (ns + 2 ^ Suc d) - 1)
      else
        (case reduce_helper f t (int a) ?mid (2 * n) (int ns) ?mid of
           Inl e \<Rightarrow> Inl e
         | Inr x \<Rightarrow>
             (case reduce_helper f t (?mid + 1) (int b) (2 * n + 1) (?mid + 1)
                     (int (ns + 2 ^ Suc d) - 1) of
                Inl e \<Rightarrow> Inl e
              | Inr y \<Rightarrow> Inr (x + y))))"
    unfolding f reduce_helper.simps Let_def mid_pow2 op cond_eq by (simp only: len if_True)
  have right_end: "int (ns + 2 ^ Suc d) - 1 = int ((ns + 2 ^ d) + 2 ^ d) - 1" by simp
  show ?case
  proof (cases "a = ns \<and> b + 1 = ns + 2 ^ Suc d")
    case True
    then have "{a..b} = {ns..<ns + 2 ^ Suc d}" by auto
    with subtree_sum[OF inv op Suc.prems(1)] True show ?thesis
      unfolding unfold by simp
  next
    case False
    then have nomatch: "\<not> (a = ns \<and> b + 1 = ns + 2 ^ Suc d)" .
    show ?thesis
    proof (cases "b < ns + 2 ^ d")
      case True
      then have "int b \<le> ?mid" by (simp only: int_nat_cmp)
      then show ?thesis
        by (subst unfold) (simp only: nomatch if_True if_False Suc.IH[OF c(3) Suc.prems(2,3) True df])
    next
      case bge: False
      show ?thesis
      proof (cases "ns + 2 ^ d \<le> a")
        case True
        with bge have cond: "\<not> int b \<le> ?mid" "?mid + 1 \<le> int a"
          by (simp_all only: int_nat_cmp not_False_eq_True)
        from Suc.prems(4) have "b < ns + 2 ^ d + 2 ^ d" by simp
        from Suc.IH[OF c(4) True Suc.prems(3) this df]
        have IH: "reduce_helper f t (int a) (int b) (2 * n + 1) (?mid + 1)
            (int (ns + 2 ^ Suc d) - 1) = Inr (\<Sum>i = a..b. leaf t i)"
          unfolding right_end int_nat_cmp(3) .
        show ?thesis
          by (subst unfold) (simp only: nomatch cond if_True if_False IH)
      next
        case False
        with bge have cond: "\<not> int b \<le> ?mid" "\<not> ?mid + 1 \<le> int a"
          by (simp_all only: int_nat_cmp not_False_eq_True)
        let ?k = "ns + 2 ^ d"
        have k1: "?mid = int (?k - 1)" by (rule int_nat_cmp(4)) simp
        from False have l: "a \<le> ?k - 1" "?k - 1 < ns + 2 ^ d" by simp_all
        from bge have r: "?k \<le> b" "b < ?k + 2 ^ d" using Suc.prems(4) by simp_all
        have L: "reduce_helper f t (int a) ?mid (2 * n) (int ns) ?mid =
            Inr (\<Sum>i = a..?k - 1. leaf t i)"
          using Suc.IH[OF c(3) Suc.prems(2) l df] by (simp only: k1) 
        have R: "reduce_helper f t (?mid + 1) (int b) (2 * n + 1) (?mid + 1)
                     (int (ns + 2 ^ Suc d) - 1) = Inr (\<Sum>i = ?k..b. leaf t i)"
          using Suc.IH[OF c(4) le_refl r df] unfolding right_end int_nat_cmp(3) .
        have "{a..b} = {a..?k - 1} \<union> {?k..b}" "{a..?k - 1} \<inter> {?k..b} = {}"
          using l r by auto
        then have "(\<Sum>i = a..b. leaf t i) = (\<Sum>i = a..?k - 1. leaf t i) + (\<Sum>i = ?k..b. leaf t i)"
          by (simp add: sum.union_disjoint)
        then show ?thesis
          by (subst unfold) (simp only: nomatch cond if_True if_False L R sum.case)
      qed
    qed
  qed
qed


section \<open>The prioritized buffer: leaves, aggregates and the steps of sample\<close>

text \<open>
  Every buffer reached from the constructor by calls whose explicit push priorities are
  not negative satisfies \<open>leaves_inv\<close>. The root of the min tree is then the least
  positive leaf of the sum tree, the sampled indices have positive leaves and lie below
  the filled count, and every power in the weights has a positive base.
\<close>

lemma storage_add_slots:
  assumes "storage_inv sz st" "storage_add st batch = Inr (R, st')" "j < max_filled st'"
  shows "j < max_filled st \<or> j \<in> set R"
proof (cases "j < max_filled st")
  case True then show ?thesis by simp
next
  case False
  from assms(1,2) have sz: "st_size st = sz" "0 < sz" and le: "max_filled st \<le> sz"
    and nx: "max_filled st < sz \<Longrightarrow> next_idx st = max_filled st"
    by (auto simp: storage_inv_def storage_add_def Let_def split: if_splits sum.splits)
  from storage_add_inv[OF assms(1,2)] assms(3)
  have j: "j < max_filled st + length batch" "j < sz" by simp_all
  with False le have lt: "max_filled st < sz" by simp
  define k where "k = j - max_filled st"
  from False j have k: "k < length batch" "max_filled st + k = j" by (simp_all add: k_def)
  from storage_add_R[OF assms(2)] have "(next_idx st + k) mod st_size st \<in> set R"
    using k(1) by simp
  with nx[OF lt] k(2) j(2) sz show ?thesis by simp
qed

lemma push_slots:
  assumes "buffer_inv b" "push b batch = Inr (R, b')" "j < filled_count b'"
  shows "j < filled_count b \<or> j \<in> set R"
proof -
  define fresh where "fresh = ReplayBufferStorage_init (maxsize b)
                    (array_shape (map state batch)) (array_shape (map action batch))"
  define st where "st = (case storage b of None \<Rightarrow> fresh
                | Some st0 \<Rightarrow> if storage_len st0 = 0 then fresh else st0)"
  have f: "storage_inv (maxsize b) fresh" "max_filled fresh = 0"
    by (simp_all add: fresh_def storage_inv_init) (simp add: ReplayBufferStorage_init_def)
  from assms(1) f have inv: "storage_inv (maxsize b) st"
    by (auto simp: st_def buffer_inv_def split: option.splits)
  from f have mf: "max_filled st = filled_count b"
    by (auto simp: st_def filled_count_def storage_len_def split: option.splits)
  have "push b batch =
      (case storage_add st batch of Inl e \<Rightarrow> Inl e | Inr (R, st') \<Rightarrow> Inr (R, b\<lparr>storage := Some st'\<rparr>))"
    unfolding push_def Let_def st_def fresh_def by (rule refl)
  with assms(2) obtain st' where
    add: "storage_add st batch = Inr (R, st')" and b': "b' = b\<lparr>storage := Some st'\<rparr>"
    by (auto split: sum.splits)
  from assms(3) b' have "j < max_filled st'" by (simp add: filled_count_def)
  from storage_add_slots[OF inv add this] mf show ?thesis by simp
qed

lemma leaves_inv_init:
  assumes "PrioritizedReplayBuffer_init sz a be = Some (Inr b)"
  shows "leaves_inv b"
proof -
  from assms have a: "0 \<le> a"
    by (auto simp: PrioritizedReplayBuffer_init_def split: if_splits)
  from init_ok[OF a, of sz be] assms obtain m where
    b: "b = \<lparr>storage = None, maxsize = sz, alpha = a, beta = be,
                      it_sum = \<lparr>capacity = 2 ^ m, tvalue = replicate (2 * 2 ^ m) 0,
                                 operation = (\<lambda>a b. a + b), neutral_element = 0\<rparr>,
                      it_min = \<lparr>capacity = 2 ^ m, tvalue = replicate (2 * 2 ^ m) PInf,
                                 operation = minimum, neutral_element = PInf\<rparr>,
                      max_priority = 1\<rparr>"
    by auto
  show ?thesis by (simp add: leaves_inv_def b leaf_def filled_count_def)
qed

lemma written_map_vals: "written idx (map f vals) j = map_option f (written idx vals j)"
proof -
  have z: "zip idx (map f vals) = map (\<lambda>(i, v). (i, f v)) (zip idx vals)"
    by (simp add: zip_map2)
  have "map_of (map (\<lambda>(i, v). (i, f v)) ps) j = map_option f (map_of ps j)"
    for ps
    by (induction ps) auto
  from this[of "rev (zip idx vals)"] show ?thesis by (simp add: written_def z rev_map)
qed

lemma written_in_set: "written idx vals j = Some v \<Longrightarrow> v \<in> set vals"
  by (auto simp: written_def dest!: map_of_SomeD set_zip_rightD)

lemma prioritized_push_leaves:
  assumes inv: "prb_inv b" and lv: "leaves_inv b"
    and ok: "\<forall>p. priorities = Some p \<longrightarrow> 0 \<le> p"
    and res: "prioritized_push b batch priorities = Inr (r, b')"
  shows "leaves_inv b'" "1 \<le> filled_count b'"
proof -
  from res obtain R b1 v s mn where
    p: "push b batch = Inr (R, b1)"
    and v: "fpow (case priorities of None \<Rightarrow> max_priority b1
                  | Some p \<Rightarrow> if p = 0 then max_priority b1 else p) (alpha b1) = Inr v"
    and s: "setitem_scalar (it_sum b1) R v = Inr s"
    and mn: "setitem_scalar (it_min b1) R (Fin v) = Inr mn"
    and b': "b' = b1\<lparr>it_sum := s, it_min := mn\<rparr>"
    by (auto simp: prioritized_push_def Let_def split: sum.splits prod.splits)
  from inv have binv: "buffer_inv b" by (simp add: prb_inv_def)
  from push_result[OF binv p] obtain st' where b1: "b1 = b\<lparr>storage := Some st'\<rparr>"
    and R: "\<forall>i\<in>set R. i < maxsize b" and lR: "length R = length batch" by auto
  from inv have mp: "1 \<le> max_priority b" by (simp add: prb_inv_def)
  have "0 < (case priorities of None \<Rightarrow> max_priority b1
                  | Some p \<Rightarrow> if p = 0 then max_priority b1 else p)"
    using ok mp by (auto simp: b1 split: option.splits)
  with v have vpos: "0 < v" by (auto simp: fpow_def split: if_splits)
  from inv obtain m where m: "capacity (it_sum b) = 2 ^ m" "capacity (it_min b) = 2 ^ m"
    "maxsize b \<le> 2 ^ m" by (auto simp: prb_inv_def)
  from R m have Rs: "\<forall>i\<in>set R. i < capacity (it_sum b)" and Rm: "\<forall>i\<in>set R. i < capacity (it_min b)"
    by auto
  from s b1 have s': "setitem (it_sum b) R (replicate (length R) v) = Inr s"
    by (simp add: setitem_scalar_def)
  from mn b1 have mn': "setitem (it_min b) R (replicate (length R) (Fin v)) = Inr mn"
    by (simp add: setitem_scalar_def)
  from inv have wfs: "tree_wf (it_sum b)" and wfm: "tree_wf (it_min b)"
    by (simp_all add: prb_inv_def)
  note ps = setitem_props[OF wfs Rs s'] and pm = setitem_props[OF wfm Rm mn']
  have ls: "leaf s j = (if j \<in> set R then v else leaf (it_sum b) j)" if "j < 2 ^ m" for j
    using ps(4) that m(1) by (simp add: written_replicate)
  have lm: "leaf mn j = (if j \<in> set R then Fin v else leaf (it_min b) j)" if "j < 2 ^ m" for j
    using pm(4) that m(2) by (simp add: written_replicate)
  have fc: "filled_count b' = filled_count b1" by (simp add: b' filled_count_def)
  have cap: "capacity s = 2 ^ m" using ps(1) m(1) by simp
  from push_inv[OF binv p] have fle: "filled_count b1 \<le> maxsize b" by simp
  show "leaves_inv b'"
    unfolding leaves_inv_def
  proof (intro conjI allI impI)
    fix i assume "i < capacity (it_sum b')"
    then have i: "i < 2 ^ m" by (simp add: b' cap)
    with lv m(1) have "(leaf (it_sum b) i = 0 \<and> leaf (it_min b) i = PInf)
        \<or> (0 < leaf (it_sum b) i \<and> leaf (it_min b) i = Fin (leaf (it_sum b) i))"
      by (simp add: leaves_inv_def)
    with vpos show "(leaf (it_sum b') i = 0 \<and> leaf (it_min b') i = PInf)
        \<or> (0 < leaf (it_sum b') i \<and> leaf (it_min b') i = Fin (leaf (it_sum b') i))"
      by (simp add: b' ls[OF i] lm[OF i])
  next
    fix i assume "i < filled_count b'"
    then have i: "i < filled_count b1" by (simp add: fc)
    with fle m(3) have i2: "i < 2 ^ m" by simp
    from push_slots[OF binv p i] have "i < filled_count b \<or> i \<in> set R" .
    with lv vpos show "0 < leaf (it_sum b') i"
      by (auto simp: b' ls[OF i2] leaves_inv_def)
  qed
  from setitem_InrD[OF s'] have "R \<noteq> []" by simp
  with lR have "batch \<noteq> []" by auto
  moreover from R \<open>R \<noteq> []\<close> have "0 < maxsize b" by (cases R) auto
  ultimately show "1 \<le> filled_count b'"
    using push_inv[OF binv p] fc by (cases batch) auto
qed

lemma update_priorities_leaves:
  assumes inv: "prb_inv b" and lv: "leaves_inv b"
    and res: "update_priorities b idxes priorities = Inr b'"
  shows "leaves_inv b'" "filled_count b' = filled_count b"
proof -
  define vals where "vals = map (\<lambda>p. p powr alpha b) priorities"
  from res obtain st s mn where st: "storage b = Some st"
    and rng: "\<forall>i\<in>set idxes. 0 \<le> i \<and> i < int (storage_len st)"
    and pos: "\<forall>p\<in>set priorities. 0 < p"
    and s: "setitem (it_sum b) (map nat idxes) vals = Inr s"
    and mn: "setitem (it_min b) (map nat idxes) (map Fin vals) = Inr mn"
    and b': "b' = b\<lparr>it_sum := s, it_min := mn,
                    max_priority := max (max_priority b) (Max (set priorities))\<rparr>"
    by (auto simp: update_priorities_def Let_def list_all_iff vals_def
        split: sum.splits option.splits if_splits)
  from inv obtain m where m: "capacity (it_sum b) = 2 ^ m" "capacity (it_min b) = 2 ^ m"
    "maxsize b \<le> 2 ^ m" by (auto simp: prb_inv_def)
  from inv st have "max_filled st \<le> maxsize b"
    by (simp add: prb_inv_def buffer_inv_def storage_inv_def)
  then have mf: "max_filled st \<le> 2 ^ m" using m(3) by simp
  have "nat i < 2 ^ m" if "i \<in> set idxes" for i
  proof -
    from rng that have "nat i < max_filled st" by (simp add: storage_len_def nat_less_iff)
    then show ?thesis using mf by (rule less_le_trans)
  qed
  with m have Rs: "\<forall>i\<in>set (map nat idxes). i < capacity (it_sum b)"
    and Rm: "\<forall>i\<in>set (map nat idxes). i < capacity (it_min b)"
    by auto
  from inv have wfs: "tree_wf (it_sum b)" and wfm: "tree_wf (it_min b)"
    by (simp_all add: prb_inv_def)
  note ps = setitem_props[OF wfs Rs s] and pm = setitem_props[OF wfm Rm mn]
  have vpos: "\<forall>v\<in>set vals. 0 < v" using pos by (auto simp: vals_def)
  have cap: "capacity s = 2 ^ m" using ps(1) m(1) by simp
  show fc: "filled_count b' = filled_count b" by (simp add: b' filled_count_def)
  have new: "(leaf s i = 0 \<and> leaf mn i = PInf) \<or> (0 < leaf s i \<and> leaf mn i = Fin (leaf s i))"
    and keep: "0 < leaf (it_sum b) i \<Longrightarrow> 0 < leaf s i"
    if i: "i < 2 ^ m" for i
  proof -
    from lv m(1) i have old: "(leaf (it_sum b) i = 0 \<and> leaf (it_min b) i = PInf)
        \<or> (0 < leaf (it_sum b) i \<and> leaf (it_min b) i = Fin (leaf (it_sum b) i))"
      by (simp add: leaves_inv_def)
    show "(leaf s i = 0 \<and> leaf mn i = PInf) \<or> (0 < leaf s i \<and> leaf mn i = Fin (leaf s i))"
    proof (cases "written (map nat idxes) vals i")
      case None
      with ps(4) pm(4) i m old show ?thesis by (simp add: written_map_vals)
    next
      case (Some v)
      with written_in_set[OF Some] vpos ps(4) pm(4) i m show ?thesis
        by (simp add: written_map_vals)
    qed
    show "0 < leaf s i" if "0 < leaf (it_sum b) i"
    proof (cases "written (map nat idxes) vals i")
      case None
      with ps(4) i m that show ?thesis by simp
    next
      case (Some v)
      with written_in_set[OF Some] vpos ps(4) i m show ?thesis by simp
    qed
  qed
  show "leaves_inv b'"
    unfolding leaves_inv_def
  proof (intro conjI allI impI)
    fix i assume "i < capacity (it_sum b')"
    then have "i < 2 ^ m" by (simp add: b' cap)
    from new[OF this] show "(leaf (it_sum b') i = 0 \<and> leaf (it_min b') i = PInf)
        \<or> (0 < leaf (it_sum b') i \<and> leaf (it_min b') i = Fin (leaf (it_sum b') i))"
      by (simp add: b')
  next
    fix i assume "i < filled_count b'"
    then have i: "i < filled_count b" by (simp add: fc)
    with st mf have "i < 2 ^ m" by (simp add: filled_count_def)
    from keep[OF this] lv i show "0 < leaf (it_sum b') i" by (simp add: b' leaves_inv_def)
  qed
qed

lemma run_leaves:
  "prb_inv b \<Longrightarrow> leaves_inv b \<Longrightarrow> \<forall>batch p. Push batch (Some p) \<in> set calls \<longrightarrow> 0 \<le> p \<Longrightarrow>
   run b calls = Inr b' \<Longrightarrow> leaves_inv b'"
proof (induction calls arbitrary: b)
  case Nil then show ?case by simp
next
  case (Cons c calls)
  from Cons.prems(3) have rest: "\<forall>batch p. Push batch (Some p) \<in> set calls \<longrightarrow> 0 \<le> p" by simp
  show ?case
  proof (cases c)
    case (Push batch priorities)
    with Cons.prems(4) obtain r b1 where
      1: "prioritized_push b batch priorities = Inr (r, b1)" and 2: "run b1 calls = Inr b'"
      by (auto split: sum.splits)
    from Push Cons.prems(3) have ok: "\<forall>p. priorities = Some p \<longrightarrow> 0 \<le> p" by simp
    from prioritized_push_inv(1)[OF Cons.prems(1) 1]
      prioritized_push_leaves(1)[OF Cons.prems(1,2) ok 1] Cons.IH[OF _ _ rest 2]
    show ?thesis by simp
  next
    case (UpdatePriorities idxes priorities)
    with Cons.prems(4) obtain b1 where
      1: "update_priorities b idxes priorities = Inr b1" and 2: "run b1 calls = Inr b'"
      by (auto split: sum.splits)
    from update_priorities_inv(1)[OF Cons.prems(1) 1]
      update_priorities_leaves(1)[OF Cons.prems(1,2) 1] Cons.IH[OF _ _ rest 2]
    show ?thesis by simp
  qed
qed

lemma it_capacity_loop_least:
  "0 < c \<Longrightarrow> \<exists>r. it_capacity_loop c sz = Some r \<and> (r = c \<or> r < 2 * sz)"
proof (induction "sz - c" arbitrary: c rule: less_induct)
  case less
  show ?case
  proof (cases "c < sz")
    case False
    then show ?thesis by (simp add: it_capacity_loop.simps)
  next
    case True
    with less.prems have "sz - c * 2 < sz - c" "0 < c * 2" by auto
    from less.hyps[OF this] obtain r where
      r: "it_capacity_loop (c * 2) sz = Some r" "r = c * 2 \<or> r < 2 * sz" by blast
    from True r have "it_capacity_loop c sz = Some r" "r < 2 * sz"
      by (auto simp: it_capacity_loop.simps[of c sz])
    then show ?thesis by blast
  qed
qed

lemma init_capacity:
  assumes "PrioritizedReplayBuffer_init sz a be = Some (Inr b)" "sz \<le> 2 ^ k"
  shows "capacity (it_sum b) \<le> 2 ^ k"
proof -
  from it_capacity_loop_least[of 1 sz] obtain r where
    r: "it_capacity_loop 1 sz = Some r" "r = 1 \<or> r < 2 * sz" by auto
  from assms(1) r(1) have "capacity (it_sum b) = r"
    by (auto simp: PrioritizedReplayBuffer_init_def SumSegmentTree_init_def
        MinSegmentTree_init_def SegmentTree_init_def split: if_splits sum.splits)
  moreover have "r \<le> 2 ^ k"
  proof (cases "r = 1")
    case True then show ?thesis by simp
  next
    case False
    from it_capacity_loop_total[of 1 sz] r(1) obtain m where m: "r = 2 ^ m" by auto
    from False r(2) assms(2) have "r < 2 * 2 ^ k" by simp
    with m have "(2::nat) ^ m < 2 ^ Suc k" by simp
    then have "m < Suc k" by (simp only: power_strict_increasing_iff rel_simps)
    then have "m \<le> k" by simp
    then show ?thesis unfolding m by (simp only: power_increasing_iff rel_simps)
  qed
  ultimately show ?thesis by simp
qed

lemma minimum_cases: "minimum a b = a \<or> minimum a b = b"
  by (cases a; cases b) (auto simp: min_def)

lemma xle_minimum: "xle (minimum a b) a" "xle (minimum a b) b"
  by (cases a; cases b; simp)+

lemma xle_trans: "xle a b \<Longrightarrow> xle b c \<Longrightarrow> xle a c"
  by (cases a; cases b; cases c) auto

lemma subtree_min:
  fixes t :: "xreal segment_tree"
  assumes "tree_inv t" "operation t = minimum"
  shows "covers t d n ns \<Longrightarrow>
    (\<forall>i. ns \<le> i \<and> i < ns + 2 ^ d \<longrightarrow> xle (tvalue t ! n) (leaf t i))
    \<and> (\<exists>i. ns \<le> i \<and> i < ns + 2 ^ d \<and> tvalue t ! n = leaf t i)"
proof (induction d arbitrary: n ns)
  case 0
  then have "tvalue t ! n = leaf t ns" by (simp add: covers_def leaf_def)
  moreover have "xle x x" for x by (cases x) auto
  ultimately show ?case by (auto simp: less_Suc_eq_le intro!: exI[of _ ns])
next
  case (Suc d)
  note c = covers_node[OF Suc.prems]
  let ?l = "tvalue t ! (2 * n)" and ?r = "tvalue t ! (2 * n + 1)"
  from assms c(1,2) have node: "tvalue t ! n = minimum ?l ?r"
    by (simp add: tree_inv_def good_def)
  note L = Suc.IH[OF c(3)] and R = Suc.IH[OF c(4)]
  have lower: "xle (tvalue t ! n) (leaf t i)" if "ns \<le> i" "i < ns + 2 ^ Suc d" for i
  proof (cases "i < ns + 2 ^ d")
    case True
    with L that have "xle ?l (leaf t i)" by simp
    with xle_minimum(1)[of ?l ?r] show ?thesis unfolding node by (rule xle_trans)
  next
    case False
    with R that have "xle ?r (leaf t i)" by simp
    with xle_minimum(2)[of ?l ?r] show ?thesis unfolding node by (rule xle_trans)
  qed
  have attained: "\<exists>i. ns \<le> i \<and> i < ns + 2 ^ Suc d \<and> tvalue t ! n = leaf t i"
  proof -
    from minimum_cases[of ?l ?r] show ?thesis
    proof
      assume e: "minimum ?l ?r = ?l"
      from L obtain i where "ns \<le> i" "i < ns + 2 ^ d" "?l = leaf t i" by blast
      with e node show ?thesis by (intro exI[of _ i]) simp
    next
      assume e: "minimum ?l ?r = ?r"
      from R obtain i where "ns + 2 ^ d \<le> i" "i < ns + 2 ^ d + 2 ^ d" "?r = leaf t i" by blast
      with e node show ?thesis by (intro exI[of _ i]) simp
    qed
  qed
  from lower attained show ?case by blast
qed

lemma root_aggregates:
  assumes inv: "prb_inv b" and lv: "leaves_inv b" and fc: "1 \<le> filled_count b"
  shows "\<exists>sm mn. tree_sum (it_sum b) 0 None = Inr sm \<and> tree_min (it_min b) 0 None = Inr (Fin mn)
     \<and> sm = cumsum (it_sum b) (capacity (it_sum b)) \<and> 0 < sm \<and> 0 < mn
     \<and> (\<forall>i<capacity (it_sum b). 0 < leaf (it_sum b) i \<longrightarrow> mn \<le> leaf (it_sum b) i)"
proof -
  let ?s = "it_sum b" and ?m = "it_min b"
  from inv obtain m where m: "capacity ?s = 2 ^ m" "capacity ?m = 2 ^ m"
    "maxsize b \<le> 2 ^ m" by (auto simp: prb_inv_def)
  from inv have wfs: "tree_wf ?s" and wfm: "tree_wf ?m"
    and invs: "tree_inv ?s" and invm: "tree_inv ?m"
    and ops: "operation ?s = (\<lambda>a b. a + b)" and opm: "operation ?m = minimum"
    by (simp_all add: prb_inv_def)
  have pos: "0 < capacity ?s" "0 < capacity ?m" using m by simp_all
  have sum: "tree_sum ?s 0 None = Inr (cumsum ?s (capacity ?s))"
    using reduce_full(2)[OF wfs pos(1)] cumsum_root[OF invs ops m(1)] by (simp add: tree_sum_def)
  have min: "tree_min ?m 0 None = Inr (tvalue ?m ! 1)"
    using reduce_full(2)[OF wfm pos(2)] by (simp add: tree_min_def)
  from lv m(1) have nonneg: "\<forall>i<2 ^ m. 0 \<le> leaf ?s i"
    by (auto simp: leaves_inv_def)
  from lv fc have l0: "0 < leaf ?s 0" by (simp add: leaves_inv_def)
  have "leaf ?s 0 \<le> (\<Sum>j<2 ^ m. leaf ?s j)"
    using nonneg by (intro member_le_sum) auto
  with l0 have smpos: "0 < cumsum ?s (capacity ?s)" by (simp add: cumsum_def m(1))
  from subtree_min[OF invm opm covers_root[OF m(2)]]
  have lower: "\<forall>i<2 ^ m. xle (tvalue ?m ! 1) (leaf ?m i)"
    and att: "\<exists>i<2 ^ m. tvalue ?m ! 1 = leaf ?m i" by auto
  from lv m(1) have link: "\<forall>i<2 ^ m. (leaf ?s i = 0 \<and> leaf ?m i = PInf)
        \<or> (0 < leaf ?s i \<and> leaf ?m i = Fin (leaf ?s i))"
    by (simp add: leaves_inv_def)
  from link l0 have "leaf ?m 0 = Fin (leaf ?s 0)" by (auto dest: spec[of _ 0])
  with lower have "xle (tvalue ?m ! 1) (Fin (leaf ?s 0))" by (auto dest: spec[of _ 0])
  then obtain mn where mn: "tvalue ?m ! 1 = Fin mn" by (cases "tvalue ?m ! 1") auto
  from att obtain i0 where i0: "i0 < 2 ^ m" "tvalue ?m ! 1 = leaf ?m i0" by blast
  with mn link have mnpos: "0 < mn" by (auto dest: spec[of _ i0])
  have least: "mn \<le> leaf ?s i" if "i < 2 ^ m" "0 < leaf ?s i" for i
  proof -
    from link that have "leaf ?m i = Fin (leaf ?s i)" by auto
    with lower that(1) mn show ?thesis by (auto dest: spec[of _ i])
  qed
  from sum min mn smpos mnpos least m(1) show ?thesis by simp
qed

lemma sequence_map_fpow:
  "\<forall>x\<in>set xs. 0 < x \<Longrightarrow> sequence (map (\<lambda>x. fpow x y) xs) = Inr (map (\<lambda>x. x powr y) xs)"
  by (induction xs) (auto simp: fpow_def)

lemma sample_proportional_ok:
  assumes inv: "prb_inv b" and lv: "leaves_inv b" and st: "storage b = Some st"
    and L: "2 \<le> max_filled st" and depth: "capacity (it_sum b) \<le> 2 ^ 999"
    and ne: "us \<noteq> []" and rng: "\<forall>u\<in>set us. 0 \<le> u \<and> u < 1"
  shows "\<exists>idx. sample_proportional b us = Some (Inr idx) \<and> length idx = length us
            \<and> (\<forall>i\<in>set idx. Suc i < max_filled st)"
proof -
  let ?t = "it_sum b"
  from inv obtain m where cap: "capacity ?t = 2 ^ m" and ms: "maxsize b \<le> 2 ^ m"
    by (auto simp: prb_inv_def)
  from inv have wf: "tree_wf ?t" and tinv: "tree_inv ?t" and op: "operation ?t = (\<lambda>a b. a + b)"
    by (simp_all add: prb_inv_def)
  from inv st have "max_filled st \<le> maxsize b"
    by (simp add: prb_inv_def buffer_inv_def storage_inv_def)
  with ms have Lcap: "max_filled st \<le> 2 ^ m" by simp
  have mpos: "0 < m"
  proof (rule ccontr)
    assume "\<not> 0 < m"
    with Lcap L show False by simp
  qed
  from depth cap have "(2::nat) ^ m \<le> 2 ^ 999" by simp
  then have "m \<le> 999" by (simp only: power_increasing_iff rel_simps)
  then have fuel: "m < recursion_limit" by (simp add: recursion_limit_def)
  define e where "e = max_filled st - 2"
  from L Lcap have e: "Suc (Suc e) = max_filled st" "e < 2 ^ m" "Suc e \<le> 2 ^ m"
    by (simp_all add: e_def)
  from L have end3: "int (storage_len st) - 1 - 1 = int e"
    by (simp add: e_def storage_len_def)
  have "reduce_helper recursion_limit ?t (int 0) (int e) 1 (int 0) (int (0 + 2 ^ m) - 1)
      = Inr (\<Sum>i = 0..e. leaf ?t i)"
    using e(2) fuel by (intro reduce_helper_range[OF wf tinv op covers_root[OF cap]]) simp_all
  then have rh: "reduce_helper recursion_limit ?t 0 (int e) 1 0 (int (capacity ?t) - 1)
      = Inr (\<Sum>i = 0..e. leaf ?t i)"
    by (simp add: cap)
  have "\<not> int (storage_len st) - 1 < 0" using L by (simp add: storage_len_def)
  then have total: "tree_sum ?t 0 (Some (int (storage_len st) - 1)) = Inr (\<Sum>i = 0..e. leaf ?t i)"
    unfolding tree_sum_def reduce_def Let_def option.case using rh end3 by simp
  have cs: "(\<Sum>i = 0..e. leaf ?t i) = cumsum ?t (Suc e)"
    by (simp add: cumsum_def atLeast0AtMost lessThan_Suc_atMost)
  from lv cap have nonneg: "\<forall>i<capacity ?t. 0 \<le> leaf ?t i"
    by (auto simp: leaves_inv_def)
  from lv st L have l0: "0 < leaf ?t 0" by (simp add: leaves_inv_def filled_count_def)
  have "cumsum ?t (Suc 0) \<le> cumsum ?t (Suc e)"
    using e(3) by (intro cumsum_mono[OF nonneg]) (simp_all add: cap)
  with l0 have tpos: "0 < cumsum ?t (Suc e)" by (simp add: cumsum_def)
  have tle: "cumsum ?t (Suc e) \<le> cumsum ?t (capacity ?t)"
    using e(3) by (intro cumsum_mono[OF nonneg]) (simp_all add: cap)
  let ?ts = "map (\<lambda>u. u * cumsum ?t (Suc e)) us"
  have tsne: "?ts \<noteq> []" using ne by simp
  have below: "\<forall>p\<in>set ?ts. 0 \<le> p \<and> p < cumsum ?t (Suc e)"
  proof
    fix p assume "p \<in> set ?ts"
    then obtain u where u: "u \<in> set us" "p = u * cumsum ?t (Suc e)" by auto
    with rng have "0 \<le> u" "u < 1" by simp_all
    with tpos have "0 \<le> u * cumsum ?t (Suc e)" "u * cumsum ?t (Suc e) < 1 * cumsum ?t (Suc e)"
      by (simp_all only: mult_strict_right_mono mult_nonneg_nonneg less_imp_le)
    with u show "0 \<le> p \<and> p < cumsum ?t (Suc e)" by simp
  qed
  with tle have trng: "\<forall>p\<in>set ?ts. 0 \<le> p \<and> p < cumsum ?t (capacity ?t)" by fastforce
  note core = find_prefixsum_idx_core[OF wf tinv op cap mpos tsne trng]
  let ?idx = "map (\<lambda>p. descend ?t m 1 p - capacity ?t) ?ts"
  have sp: "sample_proportional b us = Some (Inr ?idx)"
    by (simp only: sample_proportional_def st option.case total cs sum.case core(1))
  have "Suc i < max_filled st" if "i \<in> set ?idx" for i
  proof -
    from that obtain p where p: "p \<in> set ?ts" "i = descend ?t m 1 p - capacity ?t" by auto
    with core(2) have i: "i < capacity ?t" "cumsum ?t i \<le> p" by auto
    from bspec[OF below p(1)] have pl: "p < cumsum ?t (Suc e)" by (rule conjunct2)
    have "i < Suc e"
    proof (rule ccontr)
      assume "\<not> i < Suc e"
      then have "Suc e \<le> i" by simp
      from cumsum_mono[OF nonneg this] i(1) have "cumsum ?t (Suc e) \<le> cumsum ?t i" by simp
      with i(2) pl show False by simp
    qed
    with e(1) show ?thesis by simp
  qed
  with sp show ?thesis by (intro exI[of _ ?idx]) simp
qed

lemma sample_weights_ok:
  assumes inv: "prb_inv b" and lv: "leaves_inv b" and be: "0 \<le> beta b"
    and st: "storage b = Some st" and ne: "idx \<noteq> []"
    and rng: "\<forall>i\<in>set idx. i < max_filled st"
  shows "\<exists>recs sm mn. tree_sum (it_sum b) 0 None = Inr sm
     \<and> tree_min (it_min b) 0 None = Inr (Fin mn)
     \<and> sample_weights b st idx = Inr (recs,
          map (\<lambda>i. (leaf (it_sum b) i / sm * real (max_filled st)) powr (- beta b)
                     / (mn / sm * real (max_filled st)) powr (- beta b)) idx, idx)
     \<and> (\<forall>i\<in>set idx.
          0 < (leaf (it_sum b) i / sm * real (max_filled st)) powr (- beta b)
                     / (mn / sm * real (max_filled st)) powr (- beta b)
          \<and> (leaf (it_sum b) i / sm * real (max_filled st)) powr (- beta b)
                     / (mn / sm * real (max_filled st)) powr (- beta b) \<le> 1)"
proof -
  let ?t = "it_sum b" and ?L = "real (max_filled st)"
  from inv obtain m where cap: "capacity ?t = 2 ^ m" and ms: "maxsize b \<le> 2 ^ m"
    by (auto simp: prb_inv_def)
  from inv have wf: "tree_wf ?t" by (simp add: prb_inv_def)
  from inv st have sinv: "st_size st = maxsize b" "max_filled st \<le> maxsize b"
    by (simp_all add: prb_inv_def buffer_inv_def storage_inv_def)
  from ne rng have Lpos: "0 < max_filled st" by (cases idx) auto
  with st have fc: "1 \<le> filled_count b" by (simp add: filled_count_def)
  from root_aggregates[OF inv lv fc] obtain sm mn where
    sum: "tree_sum ?t 0 None = Inr sm" and min: "tree_min (it_min b) 0 None = Inr (Fin mn)"
    and smpos: "0 < sm" and mnpos: "0 < mn"
    and least: "\<forall>i<capacity ?t. 0 < leaf ?t i \<longrightarrow> mn \<le> leaf ?t i" by blast
  have lpos: "0 < leaf ?t i" and lcap: "i < capacity ?t" and lmn: "mn \<le> leaf ?t i"
    if "i \<in> set idx" for i
  proof -
    from that rng have i: "i < max_filled st" by simp
    with lv st show p: "0 < leaf ?t i" by (simp add: leaves_inv_def filled_count_def)
    from i sinv ms cap show c: "i < capacity ?t" by simp
    from least p c show "mn \<le> leaf ?t i" by simp
  qed
  let ?c = "mn / sm * ?L" and ?y = "- beta b"
  have cpos: "0 < ?c" using mnpos smpos Lpos by simp
  have mw: "fpow ?c ?y = Inr (?c powr ?y)" using cpos by (simp add: fpow_def)
  from cpos have "?c \<noteq> 0" by linarith
  then have mwpos: "0 < ?c powr ?y" by (simp only: powr_gt_zero not_False_eq_True)
  have gi: "getitem ?t idx = Inr (map (leaf ?t) idx)"
    using ne lcap wf by (auto simp: getitem_def list_all_iff tree_wf_def leaf_def)
  have "\<forall>x\<in>set (map (\<lambda>i. leaf ?t i / sm * ?L) idx). 0 < x"
    using lpos smpos Lpos by auto
  from sequence_map_fpow[OF this, of ?y]
  have sq: "sequence (map (\<lambda>x. fpow (leaf ?t x / sm * real (storage_len st)) ?y) idx)
      = Inr (map (\<lambda>i. (leaf ?t i / sm * ?L) powr ?y) idx)"
    by (simp add: comp_def storage_len_def)
  have sg: "list_all (\<lambda>i. i < st_size st) idx"
    using rng sinv by (auto simp: list_all_iff)
  define recs where "recs = (map (\<lambda>i. s_stack st ! i) idx,
                map (\<lambda>i. action_stack st ! i) idx,
                map (\<lambda>i. reward_stack st ! i) idx,
                map (\<lambda>i. s1_stack st ! i) idx,
                map (\<lambda>i. done_stack st ! i) idx)"
  have gs: "storage_getitem st idx = Inr recs" using sg by (simp add: storage_getitem_def recs_def)
  have mw': "fpow (mn / sm * real (storage_len st)) ?y = Inr (?c powr ?y)"
    using mw by (simp add: storage_len_def)
  have sw: "sample_weights b st idx = Inr (recs,
          map (\<lambda>i. (leaf ?t i / sm * ?L) powr ?y / ?c powr ?y) idx, idx)"
  proof -
    have pn: "(x = 0) = False" if "0 < x" for x :: real using that by simp
    note smne = pn[OF smpos] and mwne = pn[OF mwpos]
    show ?thesis
      by (simp only: sample_weights_def min sum sum.case xreal.case Let_def mw' gi sq gs
          smne mwne if_False map_map comp_def)
  qed
  have bound: "0 < (leaf ?t i / sm * ?L) powr ?y / ?c powr ?y
       \<and> (leaf ?t i / sm * ?L) powr ?y / ?c powr ?y \<le> 1" if "i \<in> set idx" for i
  proof -
    let ?a = "leaf ?t i / sm * ?L"
    from lpos[OF that] smpos Lpos have apos: "0 < ?a" by simp
    from lmn[OF that] smpos have "mn / sm \<le> leaf ?t i / sm" by (simp add: divide_right_mono)
    then have ca: "?c \<le> ?a" by (rule mult_right_mono) simp
    have "?a powr ?y \<le> ?c powr ?y" using be cpos ca by (intro powr_mono2') simp_all
    moreover from apos have "?a \<noteq> 0" by linarith
    then have "0 < ?a powr ?y" by (simp only: powr_gt_zero not_False_eq_True)
    ultimately show ?thesis using mwpos by simp
  qed
  from sum min sw bound show ?thesis by blast
qed


section \<open>Shapes of the pushed arrays\<close>

text \<open>
  A second push of one transition whose state has neither the length of the first state
  nor the length 1 does not fit the tensors that the first push made: the write raises
  RuntimeError. A state of length 1 is broadcast over the slot.
\<close>

lemma push_shape_mismatch:
  assumes "length (state x2) \<noteq> length (state x1)" "length (state x2) \<noteq> 1"
    "length (next_state x1) = length (state x1)"
  shows "pushes (ReplayBuffer_init 3) [[x1], [x2]] = Inl RuntimeError"
  using assms by (simp add: ev)

lemma push_broadcast:
  "\<exists>Rs b st. pushes (ReplayBuffer_init 3)
       [[\<lparr>state = [1, 2], action = [0], reward = 1, next_state = [2, 3], done_flag = False\<rparr>],
        [\<lparr>state = [7], action = [0], reward = 1, next_state = [8], done_flag = True\<rparr>]]
     = Inr (Rs, b) \<and> Rs = [[0], [1]] \<and> storage b = Some st
     \<and> storage_getitem st [1] = Inr ([Vec [7, 7]], [Vec [0]], [1], [Vec [8, 8]], [1])"
  by (simp add: ev)


section \<open>Claims about the uniform buffer and the storage\<close>

text \<open>
  Claim C8. \<^verbatim>\<open>sample\<close> on a freshly constructed buffer, into which nothing has been
  pushed, raises an exception, for the uniform and for the prioritized buffer: the
  storage is still \<^verbatim>\<open>None\<close> and \<^verbatim>\<open>len(self._storage)\<close> raises TypeError, whatever the
  batch size. This TypeError is the failure the specification calls EmptyBuffer.
\<close>

theorem sample_fresh_raises:
  "sample (ReplayBuffer_init sz) random_idxs = Inl TypeError \<and>
   (\<forall>b. PrioritizedReplayBuffer_init sz a be = Some (Inr b) \<longrightarrow>
        prioritized_sample b us = Some (Inl TypeError))"
  by (auto simp: sample_def ReplayBuffer_init_def PrioritizedReplayBuffer_init_def
      prioritized_sample_def sample_proportional_def split: if_splits option.splits sum.splits)

theorem sample_fresh_raises_witness:
  "sample (ReplayBuffer_init 3) [0] = Inl TypeError \<and>
   (\<exists>b. PrioritizedReplayBuffer_init 3 1 1 = Some (Inr b) \<and>
        prioritized_sample b [1 / 2] = Some (Inl TypeError))"
proof -
  obtain b where b: "PrioritizedReplayBuffer_init 3 1 1 = Some (Inr b)"
    using init_ok[of 1 3 1] by auto
  with sample_fresh_raises[of 3 "[0]" 1 1 "[1 / 2]"] show ?thesis by blast
qed

text \<open>
  Claim C9. With capacity 3, five pushes of one transition each, all with states and
  next states of one length and actions of one length, return the indices
  [0], [1], [2], [0], [1] and leave the length 3; after the fourth push slot 0 holds the
  fourth transition. (A state or an action of another length does not fit the tensors
  that the first push made: see \<open>push_shape_mismatch\<close>.) In general, on a buffer reached
  by pushes from a new one, a push of \<open>N\<close> transitions makes the filled count
  \<open>min (filled_count + N) capacity\<close>; the count never decreases and never exceeds the
  capacity, and it is what \<^verbatim>\<open>len\<close> returns.
\<close>

theorem wraparound_and_filled_count:
  "((\<forall>x\<in>set [x1, x2, x3, x4, x5].
        length (state x) = n \<and> length (next_state x) = n \<and> length (action x) = m) \<longrightarrow>
     (\<exists>Rs b. pushes (ReplayBuffer_init 3) [[x1], [x2], [x3], [x4], [x5]] = Inr (Rs, b)
       \<and> Rs = [[0], [1], [2], [0], [1]] \<and> buffer_len b = Inr 3) \<and>
     (\<exists>Rs b st. pushes (ReplayBuffer_init 3) [[x1], [x2], [x3], [x4]] = Inr (Rs, b)
       \<and> storage b = Some st
       \<and> storage_getitem st [0] =
           Inr ([Vec (state x4)], [Vec (action x4)], [reward x4], [Vec (next_state x4)],
                [if done_flag x4 then 1 else 0]))) \<and>
   (pushes (ReplayBuffer_init sz) batches = Inr (Rs, b) \<longrightarrow> push b batch = Inr (R, b') \<longrightarrow>
      filled_count b' = min (filled_count b + length batch) sz
      \<and> filled_count b \<le> filled_count b'
      \<and> buffer_len b' = Inr (filled_count b')
      \<and> filled_count b' \<le> sz)"
proof (intro conjI impI)
  assume sh: "\<forall>x\<in>set [x1, x2, x3, x4, x5].
        length (state x) = n \<and> length (next_state x) = n \<and> length (action x) = m"
  then have l: "length (state x1) = n" "length (next_state x1) = n" "length (action x1) = m"
    "length (state x2) = n" "length (next_state x2) = n" "length (action x2) = m"
    "length (state x3) = n" "length (next_state x3) = n" "length (action x3) = m"
    "length (state x4) = n" "length (next_state x4) = n" "length (action x4) = m"
    "length (state x5) = n" "length (next_state x5) = n" "length (action x5) = m"
    by simp_all
  show "\<exists>Rs b. pushes (ReplayBuffer_init 3) [[x1], [x2], [x3], [x4], [x5]] = Inr (Rs, b)
       \<and> Rs = [[0], [1], [2], [0], [1]] \<and> buffer_len b = Inr 3"
    by (simp add: ev l)
  show "\<exists>Rs b st. pushes (ReplayBuffer_init 3) [[x1], [x2], [x3], [x4]] = Inr (Rs, b)
       \<and> storage b = Some st
       \<and> storage_getitem st [0] =
           Inr ([Vec (state x4)], [Vec (action x4)], [reward x4], [Vec (next_state x4)],
                [if done_flag x4 then 1 else 0])"
    by (simp add: ev l)
next
  assume run: "pushes (ReplayBuffer_init sz) batches = Inr (Rs, b)"
    and p: "push b batch = Inr (R, b')"
  have "buffer_inv (ReplayBuffer_init sz)"
    by (simp add: buffer_inv_def ReplayBuffer_init_def)
  from pushes_inv[OF this run] have inv: "buffer_inv b" and ms: "maxsize b = sz"
    by (simp_all add: ReplayBuffer_init_def)
  from push_inv[OF inv p] ms
  have eq: "filled_count b' = min (filled_count b + length batch) sz"
    and len: "buffer_len b' = Inr (filled_count b')" by simp_all
  from inv ms have "filled_count b \<le> sz"
    by (auto simp: buffer_inv_def filled_count_def storage_inv_def split: option.splits)
  with eq len show "filled_count b' = min (filled_count b + length batch) sz"
    "filled_count b \<le> filled_count b'" "buffer_len b' = Inr (filled_count b')"
    "filled_count b' \<le> sz" by simp_all
qed

theorem wraparound_and_filled_count_witness:
  "\<exists>Rs b R b'.
      (\<exists>Rs5 b5. pushes (ReplayBuffer_init 3) [[tr 1], [tr 2], [tr 3], [tr 4], [tr 5]] = Inr (Rs5, b5)
         \<and> Rs5 = [[0], [1], [2], [0], [1]] \<and> buffer_len b5 = Inr 3)
      \<and> (\<exists>Rs4 b4 st. pushes (ReplayBuffer_init 3) [[tr 1], [tr 2], [tr 3], [tr 4]] = Inr (Rs4, b4)
         \<and> storage b4 = Some st
         \<and> storage_getitem st [0] = Inr ([Vec [4]], [Vec [0]], [4], [Vec [5]], [0]))
      \<and> pushes (ReplayBuffer_init 3) [[tr 1], [tr 2], [tr 3]] = Inr (Rs, b)
      \<and> push b [tr 4] = Inr (R, b')
      \<and> filled_count b' = min (filled_count b + length [tr 4]) 3
      \<and> filled_count b \<le> filled_count b'
      \<and> buffer_len b' = Inr (filled_count b')
      \<and> filled_count b' \<le> 3"
proof -
  have "\<exists>Rs b. pushes (ReplayBuffer_init 3) [[tr 1], [tr 2], [tr 3]] = Inr (Rs, b)
      \<and> (\<exists>R b'. push b [tr 4] = Inr (R, b'))"
    by (simp add: ev tr_def)
  then obtain Rs b R b' where
    1: "pushes (ReplayBuffer_init 3) [[tr 1], [tr 2], [tr 3]] = Inr (Rs, b)"
    and 2: "push b [tr 4] = Inr (R, b')" by blast
  have sh: "\<forall>x\<in>set [tr 1, tr 2, tr 3, tr 4, tr 5].
        length (state x) = 1 \<and> length (next_state x) = 1 \<and> length (action x) = 1"
    by (simp add: tr_def)
  have v: "state (tr 4) = [4]" "action (tr 4) = [0]" "reward (tr 4) = 4"
    "next_state (tr 4) = [5]" "done_flag (tr 4) = False"
    by (simp_all add: tr_def)
  from wraparound_and_filled_count[of "tr 1" "tr 2" "tr 3" "tr 4" "tr 5" 1 1 3
      "[[tr 1], [tr 2], [tr 3]]" Rs b "[tr 4]" R b'] sh 1 2
  show ?thesis unfolding v by (intro exI[of _ Rs] exI[of _ b] exI[of _ R] exI[of _ b']) simp
qed

section \<open>Claims about the push of the prioritized buffer\<close>

text \<open>
  Claim C5 says that \<^verbatim>\<open>push\<close> returns the assigned slot indices on both buffer
  variants. \<^verbatim>\<open>ReplayBuffer.push\<close> does: it returns the array \<^verbatim>\<open>R\<close> of the storage. The
  override \<^verbatim>\<open>PrioritizedReplayBuffer.push\<close> computes the same \<^verbatim>\<open>R\<close>, writes the
  priorities at \<^verbatim>\<open>R\<close>, and has no return statement: it returns \<^verbatim>\<open>None\<close>. The theorem
  evaluates both on a new buffer of capacity 3 and one transition: the uniform push
  returns [0]; the prioritized push writes the priority at slot 0 and returns \<^verbatim>\<open>None\<close>.
\<close>

theorem prioritized_push_returns_None:
  "(\<exists>b'. push (ReplayBuffer_init 3) [tr 1] = Inr ([0], b')) \<and>
   (\<exists>b b'. PrioritizedReplayBuffer_init 3 1 1 = Some (Inr b) \<and>
            prioritized_push b [tr 1] None = Inr (None, b') \<and>
            getitem (it_sum b') [0, 1] = Inr [1, 0])"
  by (simp add: ev tr_def)

text \<open>
  Claim C6 says that \<^verbatim>\<open>max_priority\<close> is the maximum of every priority supplied so
  far, also of the explicit priorities of a push. \<^verbatim>\<open>update_priorities\<close> raises
  \<^verbatim>\<open>_max_priority\<close> to the maximum of its priorities; \<^verbatim>\<open>push\<close> never assigns
  \<^verbatim>\<open>_max_priority\<close>. The theorem evaluates a push with the explicit priority 5 on a new
  buffer (\<open>alpha = 1\<close>): the leaf of slot 0 is 5, \<^verbatim>\<open>max_priority\<close> stays 1, and the next
  push without priorities writes the leaf 1 at slot 1.
\<close>

theorem push_priority_not_tracked:
  "\<exists>b b1 b2. PrioritizedReplayBuffer_init 4 1 1 = Some (Inr b) \<and>
      prioritized_push b [tr 1] (Some 5) = Inr (None, b1) \<and>
      getitem (it_sum b1) [0] = Inr [5] \<and> max_priority b = 1 \<and> max_priority b1 = 1 \<and>
      prioritized_push b1 [tr 2] None = Inr (None, b2) \<and>
      getitem (it_sum b2) [0, 1] = Inr [5, 1]"
  by (simp add: ev tr_def)

section \<open>Claims about the segment tree\<close>

text \<open>
  Claim C10. On a segment tree (its array has twice the capacity), a batch write
  \<^verbatim>\<open>tree[I] = V\<close> with pairwise distinct indices below the capacity, in any order, and
  as many values succeeds; afterwards a read returns the written value at each index of
  \<open>I\<close>, and every other leaf reads as before. The same holds for the write with one int
  index. (A write with no index at all raises IndexError in \<^verbatim>\<open>unique\<close>: lemma
  \<open>setitem_Nil\<close>.)
\<close>

theorem setitem_getitem_roundtrip:
  assumes "tree_wf t"
  shows "(distinct idx \<and> idx \<noteq> [] \<and> (\<forall>i\<in>set idx. i < capacity t) \<and> length val = length idx \<longrightarrow>
          (\<exists>t'. setitem t idx val = Inr t' \<and> getitem t' idx = Inr val
             \<and> (\<forall>k. k < length idx \<longrightarrow> getitem t' [idx ! k] = Inr [val ! k])
             \<and> (\<forall>j. j < capacity t \<and> j \<notin> set idx \<longrightarrow> getitem t' [j] = getitem t [j]))) \<and>
         (i < capacity t \<longrightarrow>
          (\<exists>t'. setitem_int t i v = Inr t' \<and> getitem t' [i] = Inr [v]
             \<and> (\<forall>j. j < capacity t \<and> j \<noteq> i \<longrightarrow> getitem t' [j] = getitem t [j])))"
proof (intro conjI impI)
  assume "distinct idx \<and> idx \<noteq> [] \<and> (\<forall>i\<in>set idx. i < capacity t) \<and> length val = length idx"
  with assms show "\<exists>t'. setitem t idx val = Inr t' \<and> getitem t' idx = Inr val
             \<and> (\<forall>k. k < length idx \<longrightarrow> getitem t' [idx ! k] = Inr [val ! k])
             \<and> (\<forall>j. j < capacity t \<and> j \<notin> set idx \<longrightarrow> getitem t' [j] = getitem t [j])"
    by (intro setitem_getitem_core) simp_all
next
  assume "i < capacity t"
  with setitem_getitem_core[OF assms, of "[i]" "[v]"]
  show "\<exists>t'. setitem_int t i v = Inr t' \<and> getitem t' [i] = Inr [v]
             \<and> (\<forall>j. j < capacity t \<and> j \<noteq> i \<longrightarrow> getitem t' [j] = getitem t [j])"
    by (auto simp: setitem_int_def)
qed

theorem setitem_getitem_roundtrip_witness:
  "\<exists>t t'. SumSegmentTree_init 4 = Inr t \<and> tree_wf t \<and> setitem t [2, 0] [3, 1] = Inr t'
      \<and> getitem t' [2, 0] = Inr [3, 1] \<and> getitem t' [1] = getitem t [1]
      \<and> getitem t' [3] = getitem t [3]"
proof -
  obtain t where t: "SumSegmentTree_init 4 = Inr t" and wf: "tree_wf t" and c: "capacity t = 4"
    by (simp add: ev tree_wf_def)
  from setitem_getitem_roundtrip[OF wf, of "[2, 0]" "[3, 1]" 0 0] c
  obtain t' where "setitem t [2, 0] [3, 1] = Inr t'" "getitem t' [2, 0] = Inr [3, 1]"
    "\<forall>j. j < capacity t \<and> j \<notin> set [2, 0] \<longrightarrow> getitem t' [j] = getitem t [j]"
    by auto
  with t wf c show ?thesis by auto
qed

section \<open>Claims about the trees of the prioritized buffer\<close>

text \<open>
  Claim C2. After the constructor and any sequence of \<^verbatim>\<open>push\<close> and
  \<^verbatim>\<open>update_priorities\<close> calls that return (single or batched, index arrays sorted or
  not, with repetitions, wrapped around the end of the storage), every internal node of
  the sum tree holds the sum of its two children, every internal node of the min tree
  holds the minimum of its two children, and \<^verbatim>\<open>sum(0, capacity)\<close> returns the sum of
  all leaves.
\<close>

theorem tree_invariant_after_run:
  assumes "PrioritizedReplayBuffer_init sz a be = Some (Inr b0)" "run b0 calls = Inr b"
  shows "(\<forall>n. 1 \<le> n \<and> n < capacity (it_sum b) \<longrightarrow>
            tvalue (it_sum b) ! n = tvalue (it_sum b) ! (2 * n) + tvalue (it_sum b) ! (2 * n + 1))
       \<and> (\<forall>n. 1 \<le> n \<and> n < capacity (it_min b) \<longrightarrow>
            tvalue (it_min b) ! n =
              minimum (tvalue (it_min b) ! (2 * n)) (tvalue (it_min b) ! (2 * n + 1)))
       \<and> tree_sum (it_sum b) 0 (Some (int (capacity (it_sum b)))) =
            Inr (\<Sum>i<capacity (it_sum b). leaf (it_sum b) i)"
proof -
  from reachable_inv(1)[OF assms] have inv: "prb_inv b" .
  then obtain m where m: "capacity (it_sum b) = 2 ^ m" by (auto simp: prb_inv_def)
  from inv have ops: "operation (it_sum b) = (\<lambda>a b. a + b)" "operation (it_min b) = minimum"
    and invs: "tree_inv (it_sum b)" "tree_inv (it_min b)" and wf: "tree_wf (it_sum b)"
    by (simp_all add: prb_inv_def)
  from m have pos: "0 < capacity (it_sum b)" by simp
  from invs ops have
    "\<forall>n. 1 \<le> n \<and> n < capacity (it_sum b) \<longrightarrow>
        tvalue (it_sum b) ! n = tvalue (it_sum b) ! (2 * n) + tvalue (it_sum b) ! (2 * n + 1)"
    "\<forall>n. 1 \<le> n \<and> n < capacity (it_min b) \<longrightarrow>
        tvalue (it_min b) ! n =
          minimum (tvalue (it_min b) ! (2 * n)) (tvalue (it_min b) ! (2 * n + 1))"
    by (simp_all add: tree_inv_def good_def)
  moreover have "tree_sum (it_sum b) 0 (Some (int (capacity (it_sum b)))) =
            Inr (\<Sum>i<capacity (it_sum b). leaf (it_sum b) i)"
    using reduce_full(1)[OF wf pos] root_sum[OF invs(1) ops(1) m] by (simp add: tree_sum_def)
  ultimately show ?thesis by blast
qed

theorem tree_invariant_after_run_witness:
  "\<exists>b0 b. PrioritizedReplayBuffer_init 3 1 1 = Some (Inr b0)
     \<and> run b0 [Push [tr 1] None, Push [tr 2, tr 3, tr 4] None, UpdatePriorities [2, 0] [3, 2],
               Push [tr 5] (Some 4)] = Inr b
     \<and> tvalue (it_sum b) ! 1 = tvalue (it_sum b) ! 2 + tvalue (it_sum b) ! 3
     \<and> tvalue (it_min b) ! 1 = minimum (tvalue (it_min b) ! 2) (tvalue (it_min b) ! 3)
     \<and> tree_sum (it_sum b) 0 (Some (int (capacity (it_sum b)))) =
            Inr (\<Sum>i<capacity (it_sum b). leaf (it_sum b) i)"
proof -
  have "\<exists>b0 b. PrioritizedReplayBuffer_init 3 1 1 = Some (Inr b0)
     \<and> run b0 [Push [tr 1] None, Push [tr 2, tr 3, tr 4] None, UpdatePriorities [2, 0] [3, 2],
               Push [tr 5] (Some 4)] = Inr b \<and> capacity (it_sum b) = 4 \<and> capacity (it_min b) = 4"
    by (simp add: ev tr_def)
  then obtain b0 b where 1: "PrioritizedReplayBuffer_init 3 1 1 = Some (Inr b0)"
    and 2: "run b0 [Push [tr 1] None, Push [tr 2, tr 3, tr 4] None, UpdatePriorities [2, 0] [3, 2],
               Push [tr 5] (Some 4)] = Inr b"
    and c: "capacity (it_sum b) = 4" "capacity (it_min b) = 4" by blast
  from tree_invariant_after_run[OF 1 2] c 1 2 show ?thesis by auto
qed

text \<open>
  Claim C7. On a buffer reached by the constructor and any calls,
  \<^verbatim>\<open>update_priorities(idxes, priorities)\<close> fails with AssertionError when some priority
  is not positive (the failure the specification calls InvalidPriority), and fails when
  some index is negative or not below the filled count (IndexRange): with
  AssertionError, or with the TypeError of \<^verbatim>\<open>len(None)\<close> before the first push. With
  as many priorities as indices, at least one, all priorities positive and all indices
  in range, it returns; the storage (the transition records) is unchanged; each leaf of
  the sum tree and of the min tree holds \<open>p powr alpha\<close> for the last priority \<open>p\<close>
  written to its index, and its previous value where no index names it;
  \<^verbatim>\<open>max_priority\<close> becomes the maximum of its old value and the priorities.
\<close>

theorem update_priorities_contract:
  assumes "PrioritizedReplayBuffer_init sz a be = Some (Inr b0)" "run b0 calls = Inr b"
  shows "((\<exists>p\<in>set priorities. p \<le> 0) \<longrightarrow>
            update_priorities b idxes priorities = Inl AssertionError)
       \<and> ((\<exists>i\<in>set idxes. i < 0 \<or> int (filled_count b) \<le> i) \<longrightarrow>
            update_priorities b idxes priorities =
              Inl (if length idxes = length priorities \<and> (\<forall>p\<in>set priorities. 0 < p)
                      \<and> (\<forall>i\<in>set idxes. 0 \<le> i) \<and> storage b = None
                   then TypeError else AssertionError))
       \<and> (length idxes = length priorities \<and> priorities \<noteq> [] \<and> (\<forall>p\<in>set priorities. 0 < p)
            \<and> (\<forall>i\<in>set idxes. 0 \<le> i \<and> i < int (filled_count b)) \<longrightarrow>
          (\<exists>b'. update_priorities b idxes priorities = Inr b' \<and> storage b' = storage b
             \<and> (\<forall>j<capacity (it_sum b).
                   leaf (it_sum b') j =
                     (case written (map nat idxes) (map (\<lambda>p. p powr alpha b) priorities) j of
                        None \<Rightarrow> leaf (it_sum b) j | Some v \<Rightarrow> v)
                 \<and> leaf (it_min b') j =
                     (case written (map nat idxes) (map (\<lambda>p. Fin (p powr alpha b)) priorities) j of
                        None \<Rightarrow> leaf (it_min b) j | Some v \<Rightarrow> v))
             \<and> max_priority b' = max (max_priority b) (Max (set priorities))))"
  using update_priorities_bad_priority[of priorities b idxes]
    update_priorities_bad_index[of idxes b priorities]
    update_priorities_ok[OF reachable_inv(1)[OF assms], of idxes priorities]
  by blast

theorem update_priorities_contract_witness:
  "\<exists>b0 b b'. PrioritizedReplayBuffer_init 4 1 1 = Some (Inr b0)
     \<and> run b0 [Push [tr 1] None, Push [tr 2] None, Push [tr 3] None] = Inr b
     \<and> update_priorities b [2, 0] [3, 0] = Inl AssertionError
     \<and> update_priorities b [2, 3] [3, 5] = Inl AssertionError
     \<and> update_priorities b [2, 0] [3, 5] = Inr b' \<and> storage b' = storage b
     \<and> leaf (it_sum b') 2 = 3 \<and> leaf (it_sum b') 0 = 5 \<and> leaf (it_sum b') 1 = leaf (it_sum b) 1
     \<and> leaf (it_min b') 2 = Fin 3 \<and> max_priority b' = 5"
proof -
  have "\<exists>b0 b. PrioritizedReplayBuffer_init 4 1 1 = Some (Inr b0)
     \<and> run b0 [Push [tr 1] None, Push [tr 2] None, Push [tr 3] None] = Inr b
     \<and> filled_count b = 3 \<and> capacity (it_sum b) = 4 \<and> alpha b = 1 \<and> max_priority b = 1
     \<and> storage b \<noteq> None"
    by (simp add: ev tr_def filled_count_def)
  then obtain b0 b where 1: "PrioritizedReplayBuffer_init 4 1 1 = Some (Inr b0)"
    and 2: "run b0 [Push [tr 1] None, Push [tr 2] None, Push [tr 3] None] = Inr b"
    and f: "filled_count b = 3" "capacity (it_sum b) = 4" "alpha b = 1" "max_priority b = 1"
      "storage b \<noteq> None"
    by blast
  from update_priorities_contract[OF 1 2, of "[3, 0]" "[2, 0]"]
  have a: "update_priorities b [2, 0] [3, 0] = Inl AssertionError" by simp
  from update_priorities_contract[OF 1 2, of "[3, 5]" "[2, 3]"] f
  have b: "update_priorities b [2, 3] [3, 5] = Inl AssertionError" by simp
  from update_priorities_contract[OF 1 2, of "[3, 5]" "[2, 0]"] f
  obtain b' where "update_priorities b [2, 0] [3, 5] = Inr b'" "storage b' = storage b"
    "\<forall>j<4. leaf (it_sum b') j =
                     (case written [2, 0] [3, 5] j of
                        None \<Rightarrow> leaf (it_sum b) j | Some v \<Rightarrow> v)
                 \<and> leaf (it_min b') j =
                     (case written [2, 0] [Fin 3, Fin 5] j of
                        None \<Rightarrow> leaf (it_min b) j | Some v \<Rightarrow> v)"
    "max_priority b' = 5"
    by auto
  moreover from this(3) have "leaf (it_sum b') 2 = 3" "leaf (it_sum b') 0 = 5"
    "leaf (it_sum b') 1 = leaf (it_sum b) 1" "leaf (it_min b') 2 = Fin 3"
    by (simp_all add: written_def)
  ultimately show ?thesis using 1 2 a b by blast
qed

section \<open>Claims about find\_prefixsum\_idx\<close>





section \<open>Claims about sampling from the prioritized buffer\<close>

text \<open>
  Claim C3 (the mass that \<open>sample\<close> draws from). The claim says that the draws range over
  \<open>[0, sum())\<close>, the total priority mass of all stored transitions, so that every filled slot,
  the most recently written one included, can be sampled. The code computes the mass as
  \<open>self._it_sum.sum(0, len(self._storage) - 1)\<close>, and \<open>reduce\<close> decrements its \<open>end\<close> once more,
  so the mass is the sum of the leaves \<open>0 .. len - 2\<close>: the last filled slot is left out (the
  docstring of \<open>sum\<close> describes \<open>end\<close> as inclusive). The theorem runs the code on a buffer of
  size 4 with \<open>alpha = beta = 1\<close>. After two pushes of one transition each, both leaves hold
  priority 1 and \<open>sum()\<close> is 2, but the mass used is 1; the draws \<open>0\<close>, \<open>1/2\<close> and \<open>99/100\<close> all
  map to slot 0, although \<open>99/100\<close> of the full mass maps to slot 1. After the first push alone
  (\<open>len() = 1\<close>) the query is \<open>sum(0, 0)\<close>, whose right end \<open>-1\<close> matches no node, and \<open>sample\<close>
  ends in a \<open>RecursionError\<close>.
\<close>

theorem sample_misses_last_slot:
  "\<exists>b0 b1 b2. PrioritizedReplayBuffer_init 4 1 1 = Some (Inr b0)
     \<and> run b0 [Push [tr 1] None] = Inr b1 \<and> run b1 [Push [tr 2] None] = Inr b2
     \<and> buffer_len b2 = Inr 2 \<and> getitem (it_sum b2) [0, 1] = Inr [1, 1]
     \<and> tree_sum (it_sum b2) 0 None = Inr 2
     \<and> tree_sum (it_sum b2) 0 (Some (2 - 1)) = Inr 1
     \<and> sample_proportional b2 [0, 1 / 2, 99 / 100] = Some (Inr [0, 0, 0])
     \<and> find_prefixsum_idx (it_sum b2) [99 / 100 * 2] = Some (Inr [1])
     \<and> buffer_len b1 = Inr 1
     \<and> prioritized_sample b1 [1 / 2] = Some (Inl RecursionError)"
proof -
  have "\<exists>b0 b1 b2. PrioritizedReplayBuffer_init 4 1 1 = Some (Inr b0)
     \<and> run b0 [Push [tr 1] None] = Inr b1 \<and> run b1 [Push [tr 2] None] = Inr b2
     \<and> buffer_len b2 = Inr 2 \<and> getitem (it_sum b2) [0, 1] = Inr [1, 1]
     \<and> tree_sum (it_sum b2) 0 None = Inr 2
     \<and> tree_sum (it_sum b2) 0 (Some (2 - 1)) = Inr 1
     \<and> sample_proportional b2 [0, 1 / 2, 99 / 100] = Some (Inr [0, 0, 0])
     \<and> find_prefixsum_idx (it_sum b2) [99 / 100 * 2] = Some (Inr [1])
     \<and> buffer_len b1 = Inr 1
     \<and> (\<exists>st. storage b1 = Some st \<and> storage_len st = 1) \<and> capacity (it_sum b1) = 4"
    by (simp add: ev tr_def)
  then obtain b0 b1 b2 st where f: "PrioritizedReplayBuffer_init 4 1 1 = Some (Inr b0)"
     "run b0 [Push [tr 1] None] = Inr b1" "run b1 [Push [tr 2] None] = Inr b2"
     "buffer_len b2 = Inr 2" "getitem (it_sum b2) [0, 1] = Inr [1, 1]"
     "tree_sum (it_sum b2) 0 None = Inr 2"
     "tree_sum (it_sum b2) 0 (Some (2 - 1)) = Inr 1"
     "sample_proportional b2 [0, 1 / 2, 99 / 100] = Some (Inr [0, 0, 0])"
     "find_prefixsum_idx (it_sum b2) [99 / 100 * 2] = Some (Inr [1])"
     "buffer_len b1 = Inr 1"
     and st: "storage b1 = Some st" "storage_len st = 1" "capacity (it_sum b1) = 4"
    by blast
  have "prioritized_sample b1 [1 / 2] = Some (Inl RecursionError)"
    using st
    by (simp add: prioritized_sample_def sample_proportional_def tree_sum_def reduce_def
        reduce_helper_below)
  with f show ?thesis by blast
qed

text \<open>
  Claim C4 (importance weights). For a buffer made by the constructor with \<open>beta \<ge> 0\<close> and
  a size of at most \<open>2 ^ 999\<close> (the range query then stays within the recursion limit),
  after any calls of \<^verbatim>\<open>push\<close> and \<^verbatim>\<open>update_priorities\<close> that return and whose explicit push
  priorities are not negative (0 stands for the default), holding at least two
  transitions: for every non-empty batch of draws in \<open>[0, 1)\<close>, \<^verbatim>\<open>sample\<close> returns, one
  weight and one index per draw; every index lies below \<^verbatim>\<open>len()\<close>; every weight equals
  \<open>(p_i * len()) powr (- beta) / (p_min * len()) powr (- beta)\<close> with
  \<open>p_i = leaf(i) / sum()\<close> and \<open>p_min = min() / sum()\<close>; and every weight is positive and
  at most 1. The bound needs \<open>beta \<ge> 0\<close>: the constructor accepts any \<open>beta\<close>, and with
  \<open>beta = - 1\<close> a slot of priority 2 beside a slot of priority 1 gets the weight 2
  (the counterexample below).
\<close>

theorem sample_weights_bounded:
  assumes init: "PrioritizedReplayBuffer_init sz a be = Some (Inr b0)"
    and run: "run b0 calls = Inr b"
    and prio: "\<forall>batch p. Push batch (Some p) \<in> set calls \<longrightarrow> 0 \<le> p"
    and beta: "0 \<le> be" and size: "sz \<le> 2 ^ 999"
    and filled: "2 \<le> filled_count b"
    and ne: "us \<noteq> []" and draws: "\<forall>u\<in>set us. 0 \<le> u \<and> u < 1"
  shows "\<exists>recs ws idx sm mn.
      prioritized_sample b us = Some (Inr (recs, ws, idx))
      \<and> buffer_len b = Inr (filled_count b)
      \<and> tree_sum (it_sum b) 0 None = Inr sm \<and> tree_min (it_min b) 0 None = Inr (Fin mn)
      \<and> length ws = length us \<and> length idx = length us
      \<and> (\<forall>k<length us. idx ! k < filled_count b
           \<and> ws ! k = (leaf (it_sum b) (idx ! k) / sm * real (filled_count b)) powr (- be)
                      / (mn / sm * real (filled_count b)) powr (- be)
           \<and> 0 < ws ! k \<and> ws ! k \<le> 1)"
proof -
  note r = reachable_inv[OF init run]
  from r have inv: "prb_inv b" and be: "beta b = be" by simp_all
  from run_leaves[OF init_inv(1)[OF init] leaves_inv_init[OF init] prio run]
  have lv: "leaves_inv b" .
  from filled obtain st where st: "storage b = Some st" and mf: "max_filled st = filled_count b"
    by (cases "storage b") (auto simp: filled_count_def)
  from filled mf have L: "2 \<le> max_filled st" by simp
  have cap0: "capacity (it_sum b0) \<le> 2 ^ 999" by (rule init_capacity[OF init size])
  have capeq: "capacity (it_sum b') = capacity (it_sum b0)"
    if "prb_inv b0'" "run b0' cs = Inr b'" "capacity (it_sum b0') = capacity (it_sum b0)"
    for b0' cs b'
    using that
  proof (induction cs arbitrary: b0')
    case Nil then show ?case by simp
  next
    case (Cons c cs)
    show ?case
    proof (cases c)
      case (Push batch priorities)
      with Cons.prems(2) obtain r1 b1 where
        1: "prioritized_push b0' batch priorities = Inr (r1, b1)" and 2: "run b1 cs = Inr b'"
        by (auto split: sum.splits)
      from 1 obtain R b2 v s mn where
        p: "push b0' batch = Inr (R, b2)"
        and s: "setitem_scalar (it_sum b2) R v = Inr s"
        and b1: "b1 = b2\<lparr>it_sum := s, it_min := mn\<rparr>"
        by (auto simp: prioritized_push_def Let_def split: sum.splits prod.splits)
      from Cons.prems(1) have binv: "buffer_inv b0'" and wf: "tree_wf (it_sum b0')"
        by (simp_all add: prb_inv_def)
      from Cons.prems(1) obtain m where m: "capacity (it_sum b0') = 2 ^ m" "maxsize b0' \<le> 2 ^ m"
        by (auto simp: prb_inv_def)
      from push_result[OF binv p] obtain st' where b2: "b2 = b0'\<lparr>storage := Some st'\<rparr>"
        and R: "\<forall>i\<in>set R. i < maxsize b0'" by auto
      from R m have Rs: "\<forall>i\<in>set R. i < capacity (it_sum b0')" by auto
      from s b2 have "setitem (it_sum b0') R (replicate (length R) v) = Inr s"
        by (simp add: setitem_scalar_def)
      from setitem_props(1)[OF wf Rs this] have "capacity (it_sum b1) = capacity (it_sum b0')"
        by (simp add: b1)
      with Cons.IH[OF prioritized_push_inv(1)[OF Cons.prems(1) 1] 2] Cons.prems(3)
      show ?thesis by simp
    next
      case (UpdatePriorities idxes priorities)
      with Cons.prems(2) obtain b1 where
        1: "update_priorities b0' idxes priorities = Inr b1" and 2: "run b1 cs = Inr b'"
        by (auto split: sum.splits)
      from 1 obtain st1 s mn where st1: "storage b0' = Some st1"
        and rng: "\<forall>i\<in>set idxes. 0 \<le> i \<and> i < int (storage_len st1)"
        and s: "setitem (it_sum b0') (map nat idxes)
                  (map (\<lambda>p. p powr alpha b0') priorities) = Inr s"
        and b1: "b1 = b0'\<lparr>it_sum := s, it_min := mn,
                    max_priority := max (max_priority b0') (Max (set priorities))\<rparr>"
        by (auto simp: update_priorities_def Let_def list_all_iff
            split: sum.splits option.splits if_splits)
      from Cons.prems(1) have wf: "tree_wf (it_sum b0')" by (simp add: prb_inv_def)
      from Cons.prems(1) obtain m where m: "capacity (it_sum b0') = 2 ^ m" "maxsize b0' \<le> 2 ^ m"
        by (auto simp: prb_inv_def)
      from Cons.prems(1) st1 have "max_filled st1 \<le> maxsize b0'"
        by (simp add: prb_inv_def buffer_inv_def storage_inv_def)
      then have mf1: "max_filled st1 \<le> 2 ^ m" using m(2) by simp
      have "nat i < 2 ^ m" if "i \<in> set idxes" for i
      proof -
        from rng that have "nat i < max_filled st1" by (simp add: storage_len_def nat_less_iff)
        then show ?thesis using mf1 by (rule less_le_trans)
      qed
      with m have Rs: "\<forall>i\<in>set (map nat idxes). i < capacity (it_sum b0')" by auto
      from setitem_props(1)[OF wf Rs s] have "capacity (it_sum b1) = capacity (it_sum b0')"
        by (simp add: b1)
      with Cons.IH[OF update_priorities_inv(1)[OF Cons.prems(1) 1] 2] Cons.prems(3)
      show ?thesis by simp
    qed
  qed
  from capeq[OF init_inv(1)[OF init] run refl] cap0
  have depth: "capacity (it_sum b) \<le> 2 ^ 999" by simp
  from sample_proportional_ok[OF inv lv st L depth ne draws] obtain idx where
    sp: "sample_proportional b us = Some (Inr idx)" and li: "length idx = length us"
    and ir: "\<forall>i\<in>set idx. Suc i < max_filled st" by blast
  from ne li have ine: "idx \<noteq> []" by auto
  from ir have ir': "\<forall>i\<in>set idx. i < max_filled st" by auto
  from be beta have beb: "0 \<le> beta b" by simp
  let ?w = "\<lambda>i. (leaf (it_sum b) i / sm * real (max_filled st)) powr (- beta b)
                     / (mn / sm * real (max_filled st)) powr (- beta b)"
  from sample_weights_ok[OF inv lv beb st ine ir'] obtain recs sm mn where
    sum: "tree_sum (it_sum b) 0 None = Inr sm"
    and min: "tree_min (it_min b) 0 None = Inr (Fin mn)"
    and sw: "sample_weights b st idx = Inr (recs,
          map (\<lambda>i. (leaf (it_sum b) i / sm * real (max_filled st)) powr (- beta b)
                     / (mn / sm * real (max_filled st)) powr (- beta b)) idx, idx)"
    and bd: "\<forall>i\<in>set idx.
          0 < (leaf (it_sum b) i / sm * real (max_filled st)) powr (- beta b)
                     / (mn / sm * real (max_filled st)) powr (- beta b)
          \<and> (leaf (it_sum b) i / sm * real (max_filled st)) powr (- beta b)
                     / (mn / sm * real (max_filled st)) powr (- beta b) \<le> 1"
    by blast
  define ws where "ws = map (\<lambda>i. (leaf (it_sum b) i / sm * real (max_filled st)) powr (- beta b)
                     / (mn / sm * real (max_filled st)) powr (- beta b)) idx"
  have ps: "prioritized_sample b us = Some (Inr (recs, ws, idx))"
    unfolding ws_def by (simp only: prioritized_sample_def sp st sw option.case sum.case)
  have bl: "buffer_len b = Inr (filled_count b)"
    by (simp add: buffer_len_def st storage_len_def mf)
  have lw: "length ws = length us" by (simp add: ws_def li)
  have each: "\<forall>k<length us. idx ! k < filled_count b
           \<and> ws ! k = (leaf (it_sum b) (idx ! k) / sm * real (filled_count b)) powr (- be)
                      / (mn / sm * real (filled_count b)) powr (- be)
           \<and> 0 < ws ! k \<and> ws ! k \<le> 1"
  proof (intro allI impI)
    fix k assume "k < length us"
    with li have k: "k < length idx" by simp
    then have mem: "idx ! k \<in> set idx" by simp
    from k have wk: "ws ! k = (leaf (it_sum b) (idx ! k) / sm * real (filled_count b)) powr (- be)
                      / (mn / sm * real (filled_count b)) powr (- be)"
      unfolding ws_def mf[symmetric] be[symmetric] by (rule nth_map)
    from bspec[OF bd mem] have "0 < ws ! k \<and> ws ! k \<le> 1"
      unfolding wk mf[symmetric] be[symmetric] .
    with bspec[OF ir' mem] wk mf show "idx ! k < filled_count b
           \<and> ws ! k = (leaf (it_sum b) (idx ! k) / sm * real (filled_count b)) powr (- be)
                      / (mn / sm * real (filled_count b)) powr (- be)
           \<and> 0 < ws ! k \<and> ws ! k \<le> 1"
      by simp
  qed
  from ps bl sum min lw li each show ?thesis by blast
qed

theorem sample_weights_bounded_witness:
  "\<exists>b0 b recs ws idx. PrioritizedReplayBuffer_init 4 1 1 = Some (Inr b0)
     \<and> run b0 [Push [tr 1] None, Push [tr 2] None, Push [tr 3] (Some 2)] = Inr b
     \<and> filled_count b = 3
     \<and> prioritized_sample b [1 / 4, 3 / 4] = Some (Inr (recs, ws, idx))
     \<and> length ws = 2 \<and> 0 < ws ! 0 \<and> ws ! 0 \<le> 1 \<and> 0 < ws ! 1 \<and> ws ! 1 \<le> 1"
proof -
  let ?calls = "[Push [tr 1] None, Push [tr 2] None, Push [tr 3] (Some 2)]"
  have "\<exists>b0 b. PrioritizedReplayBuffer_init 4 1 1 = Some (Inr b0)
     \<and> run b0 ?calls = Inr b \<and> filled_count b = 3"
    by (simp add: ev tr_def filled_count_def)
  then obtain b0 b where 1: "PrioritizedReplayBuffer_init 4 1 1 = Some (Inr b0)"
    and 2: "run b0 ?calls = Inr b" and 3: "filled_count b = 3" by blast
  have prio: "\<forall>batch p. Push batch (Some p) \<in> set ?calls \<longrightarrow> (0::real) \<le> p" by auto
  have d: "\<forall>u\<in>set [1 / 4, 3 / 4 :: real]. 0 \<le> u \<and> u < 1" by simp
  have h: "(0::real) \<le> 1" "(4::nat) \<le> 2 ^ 999" "2 \<le> filled_count b" "[1 / 4, 3 / 4 :: real] \<noteq> []"
    by (simp_all add: 3)
  from sample_weights_bounded[OF 1 2 prio h d]
  obtain recs ws idx where ps: "prioritized_sample b [1 / 4, 3 / 4] = Some (Inr (recs, ws, idx))"
    and lw: "length ws = length [1 / 4, 3 / 4 :: real]"
    and all: "\<forall>k<length [1 / 4, 3 / 4 :: real]. 0 < ws ! k \<and> ws ! k \<le> 1"
    by blast
  from all have w: "0 < ws ! 0" "ws ! 0 \<le> 1" "0 < ws ! 1" "ws ! 1 \<le> 1" by simp_all
  from lw have lw2: "length ws = 2" by simp
  from 1 2 3 ps lw2 w show ?thesis by blast
qed

theorem sample_weights_negative_beta_counterexample:
  "\<exists>b0 b recs. PrioritizedReplayBuffer_init 4 1 (- 1) = Some (Inr b0)
     \<and> run b0 [Push [tr 1] None, Push [tr 2] None, UpdatePriorities [0] [2]] = Inr b
     \<and> buffer_len b = Inr 2
     \<and> prioritized_sample b [1 / 2] = Some (Inr (recs, [2], [0]))
     \<and> \<not> (2::real) \<le> 1"
  by (simp add: ev tr_def)

end
